theory Spec2Isabelle
  imports Complex_Main "HOL-Library.Multiset" "HOL-Library.Log_Nat" "HOL-Library.Product_Lexorder"
begin

section \<open>Survey360: Likert scores, invitations, forms and report aggregation\<close>

text \<open>
  A shallow embedding of the parts of the \<open>survey\<close> application that its specification
  makes claims about: \<open>survey/utils.py\<close> (Likert scores, the choice lists),
  \<open>survey/models.py\<close> (the invitation's validity), \<open>survey/forms.py\<close> (the
  \<open>clean_*\<close> methods) and \<open>survey/views.py\<close> (submission and the report).

  Python strings are modelled as \<^typ>\<open>string\<close>, Python integers as \<^typ>\<open>int\<close>,
  timestamps as \<^typ>\<open>int\<close> (microseconds, the resolution of a \<open>datetime\<close>).
\<close>

subsection \<open>\<open>utils.calculate_likert_score\<close>\<close>

text \<open>
  \<^verbatim>\<open>scores = {'significantly_above': 7, ..., 'significantly_below': 1}\<close>
  \<^verbatim>\<open>return scores.get(value, 4)\<close>
  The dictionary literal is an association list; \<open>dict.get\<close> with a default is
  \<^const>\<open>map_of\<close> followed by the default.
\<close>

definition likert_scores :: "(string \<times> int) list" where
  "likert_scores =
     [(''significantly_above'', 7),
      (''above'', 6),
      (''slightly_above'', 5),
      (''meets'', 4),
      (''slightly_below'', 3),
      (''below'', 2),
      (''significantly_below'', 1)]"

definition calculate_likert_score :: "string \<Rightarrow> int" where
  "calculate_likert_score v =
     (case map_of likert_scores v of Some s \<Rightarrow> s | None \<Rightarrow> 4)"

subsection \<open>\<open>models.SurveyInvitation\<close>\<close>

record invitation =
  inv_survey :: nat
  inv_email :: string
  inv_token :: string
  expires_at :: int
  used :: bool
  used_at :: "int option"

text \<open>
  \<^verbatim>\<open>is_expired: return timezone.now() > self.expires_at\<close>
  \<^verbatim>\<open>is_valid:   return not self.used and not self.is_expired\<close>
  The clock read by \<open>timezone.now()\<close> is the first argument.
\<close>

definition is_expired :: "int \<Rightarrow> invitation \<Rightarrow> bool" where
  "is_expired now iv \<longleftrightarrow> now > expires_at iv"

definition is_valid :: "int \<Rightarrow> invitation \<Rightarrow> bool" where
  "is_valid now iv \<longleftrightarrow> \<not> used iv \<and> \<not> is_expired now iv"

subsection \<open>Python values the views compute with\<close>

text \<open>
  Exceptions are values: a computation that can raise returns \<open>py_error + 'a\<close>.
\<close>

datatype py_error =
    ZeroDivisionError
  | KeyError
  | IndexError
  | ValueError
  | IntegrityError
  | DoesNotExist
  | Http404
  | JSONDecodeError

text \<open>
  A Python \<open>float\<close> is an IEEE 754 double, modelled as the rational number it
  stands for. \<open>to_double x\<close> is the double nearest to \<open>x\<close>, a tie going to the even
  significand: 53 significant bits, the smallest exponent is \<open>-1022\<close>.
  \<open>binary_exponent x\<close> is \<open>\<lfloor>log\<^sub>2 x\<rfloor>\<close> for \<open>x > 0\<close>, found from the bit lengths
  of numerator and denominator. No largest exponent is modelled: the quotients below are
  bounded by the ranks, and the database's integer columns hold 64 bits at most.
\<close>

definition pow2 :: "int \<Rightarrow> rat" where
  "pow2 e = (if 0 \<le> e then 2 ^ nat e else 1 / 2 ^ nat (- e))"

definition binary_exponent :: "rat \<Rightarrow> int" where
  "binary_exponent x =
     (let e = bitlen (fst (quotient_of x)) - bitlen (snd (quotient_of x))
      in if pow2 e \<le> x then e else e - 1)"

definition round_half_even :: "rat \<Rightarrow> int" where
  "round_half_even x =
     (let f = \<lfloor>x\<rfloor>; d = x - of_int f
      in if d < 1 / 2 then f
         else if 1 / 2 < d then f + 1
         else if even f then f else f + 1)"

definition to_double :: "rat \<Rightarrow> rat" where
  "to_double x =
     (if x = 0 then 0
      else (let quantum = pow2 (max (binary_exponent \<bar>x\<bar>) (- 1022) - 52)
            in of_int (round_half_even (x / quantum)) * quantum))"

text \<open>
  \<open>a / b\<close> on Python integers is true division: it raises on a zero divisor and
  otherwise returns the double nearest to the quotient.
\<close>

definition py_truediv :: "int \<Rightarrow> int \<Rightarrow> py_error + rat" where
  "py_truediv a b = (if b = 0 then Inl ZeroDivisionError else Inr (to_double (of_int a / of_int b)))"

text \<open>
  \<open>round(x, 2)\<close> on a float: the exact value of \<open>x\<close> is rounded to the nearest
  multiple of 1/100, a tie to the even one, and the result is the double nearest to that.
\<close>

definition py_round2 :: "rat \<Rightarrow> rat" where
  "py_round2 x = to_double (of_int (round_half_even (x * 100)) / 100)"

text \<open>
  A Python \<open>dict\<close> whose values are lists, in insertion order:
  \<^verbatim>\<open>if k not in d: d[k] = []\<close>
  \<^verbatim>\<open>d[k].append(v)\<close>
\<close>

fun dict_append :: "string \<Rightarrow> 'v \<Rightarrow> (string \<times> 'v list) list \<Rightarrow> (string \<times> 'v list) list" where
  "dict_append k v [] = [(k, [v])]"
| "dict_append k v ((k', vs) # d) =
     (if k = k' then (k', vs @ [v]) # d else (k', vs) # dict_append k v d)"

text \<open>
  \<open>xs.sort(key=f, reverse=True)\<close>: Python's sort is stable, and with \<open>reverse=True\<close>
  elements with equal keys still keep their original order.
\<close>

definition sort_reverse :: "('a \<Rightarrow> rat) \<Rightarrow> 'a list \<Rightarrow> 'a list" where
  "sort_reverse f xs = sort_key (\<lambda>x. - f x) xs"

subsection \<open>\<open>utils.get_question_texts\<close>\<close>

definition get_question_texts :: "(nat \<times> string) list" where
  "get_question_texts =
     [(2, ''This leader communicates a clear vision for the school's future.''),
      (3, ''This leader allocates resources (financial, human, and/or time) to support the school's vision.''),
      (4, ''This leader integrates the school's core values into the daily operations of the campus.''),
      (5, ''This leader ensures diverse stakeholders are respected and represented within the school environment.''),
      (6, ''This leader supports the recruitment of a diverse staff that mirrors the student population.''),
      (7, ''This leader models the school's core values in all aspects of leadership.''),
      (8, ''This leader fosters open communication among others.''),
      (9, ''This leader cultivates an inclusive school culture where everyone feels valued.''),
      (10, ''This leader implements and evaluates a comprehensive safety and security plan.''),
      (11, ''This leader provides training or resources to recognize and respond effectively to potential safety threats, including bullying, harassment, and violence.''),
      (12, ''This leader promotes a sense of ownership and responsibility among others.''),
      (13, ''This leader promotes the development of leadership in others.''),
      (14, ''This leader is supportive of district priorities and/or initiatives.''),
      (15, ''This leader uses research and/or best practices to improve curriculum and instruction.''),
      (16, ''This leader ensures professional development experiences translate into improved practice.''),
      (17, ''This leader promotes a culture of continuous learning and growth.''),
      (18, ''This leader advocates for school resources and support.''),
      (19, ''This leader is transparent with pertinent information.''),
      (20, ''This leader models ethical behavior.''),
      (21, ''This leader places students at the center of educational decisions.''),
      (22, ''This leader seeks to understand others.''),
      (23, ''This leader proactively communicates information.''),
      (24, ''This leader is positive in their demeanor.''),
      (25, ''This leader builds positive relationships with all members of the school community.''),
      (26, ''This leader effectively resolves conflicts in a manner that promotes mutual understanding.''),
      (27, ''This leader builds consensus to achieve common goals.''),
      (28, ''This leader navigates challenging situations while maintaining positive relationships.''),
      (29, ''This leader advocates for students' needs and rights, even in the face of resistance.''),
      (30, ''This leader takes personal responsibility to advance student success.''),
      (31, ''This leader seeks ways to include families and community members in the school community.''),
      (32, ''This leader collaborates with local organizations to address the broader needs of students and families.''),
      (33, ''This leader ensures school policies, practices, and programs are inclusive and equitable for everyone.''),
      (34, ''This leader fosters a culture of inclusivity and diversity within the school community.''),
      (35, ''This leader communicates instructional goals to staff, students, and parents.''),
      (36, ''This leader ensures alignment between curriculum, instruction, and assessment within the school.''),
      (37, ''This leader promotes a culture of differentiated instruction to meet the diverse needs of students.''),
      (38, ''This leader provides opportunities for teachers to enhance their understanding and implementation of the curriculum.''),
      (39, ''This leader monitors curriculum implementation and student outcomes to ensure continuous improvement.''),
      (40, ''This leader views feedback as an opportunity for improvement.''),
      (41, ''This leader helps teachers improve instruction.''),
      (42, ''This leader uses feedback mechanisms (surveys, focus groups, etc.) to improve.''),
      (43, ''This leader collaborates with others to identify priority areas for school improvement.''),
      (44, ''This leader communicates updates and successes regarding school improvement efforts.''),
      (45, ''This leader works with others to establish and accomplish school goals.''),
      (46, ''This leader supports using a variety of assessment methods to measure student progress and learning.''),
      (47, ''This leader uses assessment data to improve student achievement.''),
      (48, ''This leader fosters a culture of collaboration among teachers to share teaching strategies and best practices.''),
      (49, ''This leader fosters a work environment that values the contributions of all staff members.''),
      (50, ''This leader seeks out and secures additional funding to enhance programs and services.''),
      (51, ''This leader provides effective resources to support campus instructional needs.''),
      (52, ''This leader aligns the school budget with campus goals.''),
      (53, ''This leader supports the integration of technology into teaching and learning practices.''),
      (54, ''This leader inspires and empowers others to pursue lifelong learning.''),
      (55, ''This leader supports ongoing learning and professional growth opportunities.'')]"


subsection \<open>The stored rows\<close>

text \<open>
  A table is the list of its rows in creation order; a row's primary key is its position,
  and a foreign key is the position of the row referred to. Only the columns the modelled
  views read or write are kept. The 54 columns \<open>q2_response\<close> .. \<open>q55_response\<close> are
  one function of the question number, as \<open>getattr(response, f'q{q_num}_response')\<close>
  reads them.
\<close>

record survey =
  leader_token :: string
  leader_completed_self :: bool

record survey_response =
  resp_survey :: nat
  resp_invitation :: "nat option"
  relationship :: string
  submitted_at :: int
  is_leader_self_assessment :: bool
  q_response :: "nat \<Rightarrow> string"
  continue_doing :: string
  stop_doing :: string
  start_doing :: string

text \<open>\<open>StrengthRanking\<close> and \<open>OpportunityRanking\<close>: response, label, rank.\<close>

record ranking =
  rk_response :: nat
  rk_label :: string
  rk_rank :: int

record db =
  surveys :: "survey list"
  invitations :: "invitation list"
  responses :: "survey_response list"
  strength_rankings :: "ranking list"
  opportunity_rankings :: "ranking list"

text \<open>
  \<open>survey.responses.all()\<close> with \<open>Meta.ordering = ['-submitted_at']\<close>, and
  \<open>response.strength_rankings.all()\<close> with \<open>Meta.ordering = ['-rank']\<close>. Rows with
  equal sort keys come in creation order here (the database is free to choose).
  A response is paired with its primary key.
\<close>

definition responses_all :: "db \<Rightarrow> nat \<Rightarrow> (nat \<times> survey_response) list" where
  "responses_all d s =
     sort_key (\<lambda>(pk, r). - submitted_at r)
       (filter (\<lambda>(pk, r). resp_survey r = s) (enumerate 0 (responses d)))"

definition rankings_all :: "ranking list \<Rightarrow> nat \<Rightarrow> ranking list" where
  "rankings_all tbl pk = sort_key (\<lambda>k. - rk_rank k) (filter (\<lambda>k. rk_response k = pk) tbl)"

subsection \<open>\<open>views.survey_detail_view\<close>: the invitation counts\<close>

text \<open>
  The invitation counts of \<open>survey_detail_view\<close>:
  \<^verbatim>\<open>invitations = survey.invitations.all()\<close>
  \<^verbatim>\<open>'total_invitations': invitations.count(),\<close>
  \<^verbatim>\<open>'completed_invitations': invitations.filter(used=True).count(),\<close>
  \<^verbatim>\<open>'pending_invitations': invitations.filter(used=False, expires_at__gt=timezone.now()).count(),\<close>
  \<^verbatim>\<open>'expired_invitations': invitations.filter(used=False, expires_at__lte=timezone.now()).count(),\<close>
  The clock is read twice; the two readings are the first two arguments.
\<close>

record invitation_stats =
  total_invitations :: nat
  completed_invitations :: nat
  pending_invitations :: nat
  expired_invitations :: nat

definition survey_detail_stats :: "int \<Rightarrow> int \<Rightarrow> db \<Rightarrow> nat \<Rightarrow> invitation_stats" where
  "survey_detail_stats now1 now2 d s =
     (let invs = filter (\<lambda>iv. inv_survey iv = s) (invitations d) in
      \<lparr>total_invitations = length invs,
       completed_invitations = length (filter (\<lambda>iv. used iv) invs),
       pending_invitations = length (filter (\<lambda>iv. \<not> used iv \<and> expires_at iv > now1) invs),
       expired_invitations = length (filter (\<lambda>iv. \<not> used iv \<and> expires_at iv \<le> now2) invs)\<rparr>)"

subsection \<open>\<open>views.view_report\<close>: the aggregation\<close>

record question_stat =
  qs_text :: string
  qs_average :: rat
  qs_scores :: "int list"
  qs_response_count :: nat
  qs_by_relationship :: "(string \<times> rat option) list"

definition scores_by_relationship_init :: "(string \<times> int list) list" where
  "scores_by_relationship_init =
     [(''self'', []), (''supervisor'', []), (''peer'', []),
      (''teacher'', []), (''student'', []), (''parent'', [])]"

text \<open>
  The body of \<open>for response in responses\<close> for one question: it extends \<open>scores\<close>
  and \<open>scores_by_relationship\<close>.
\<close>

definition score_response ::
  "nat \<Rightarrow> survey_response \<Rightarrow> int list \<times> (string \<times> int list) list
     \<Rightarrow> int list \<times> (string \<times> int list) list" where
  "score_response q_num r acc =
     (let v = q_response r q_num in
      if v \<noteq> [] then
        (let score = calculate_likert_score v;
             rel = (if is_leader_self_assessment r then ''self'' else relationship r)
         in (fst acc @ [score],
             if rel \<in> set (map fst (snd acc))
             then map (\<lambda>(k, vs). if k = rel then (k, vs @ [score]) else (k, vs)) (snd acc)
             else snd acc))
      else acc)"

text \<open>
  \<^verbatim>\<open>avg_by_relationship[rel] = round(sum(rel_scores) / len(rel_scores), 2) if rel_scores else None\<close>
\<close>

fun average_by_relationship ::
  "(string \<times> int list) list \<Rightarrow> py_error + (string \<times> rat option) list" where
  "average_by_relationship [] = Inr []"
| "average_by_relationship ((rel, rel_scores) # rest) =
     (case (if rel_scores \<noteq> []
            then (case py_truediv (sum_list rel_scores) (int (length rel_scores)) of
                    Inl e \<Rightarrow> Inl e
                  | Inr a \<Rightarrow> Inr (Some (py_round2 a)))
            else Inr None) of
        Inl e \<Rightarrow> Inl e
      | Inr a \<Rightarrow>
          (case average_by_relationship rest of
             Inl e \<Rightarrow> Inl e
           | Inr m \<Rightarrow> Inr ((rel, a) # m)))"

text \<open>
  One round of \<open>for q_num in range(2, 56)\<close>: \<open>None\<close> when \<open>scores\<close> is empty and
  \<open>question_stats\<close> gets no entry.
\<close>

definition question_stat_of ::
  "survey_response list \<Rightarrow> nat \<Rightarrow> py_error + question_stat option" where
  "question_stat_of rs q_num =
     (let acc = fold (score_response q_num) rs ([], scores_by_relationship_init);
          scores = fst acc
      in if scores \<noteq> [] then
           (case average_by_relationship (snd acc) of
              Inl e \<Rightarrow> Inl e
            | Inr avg_by_relationship \<Rightarrow>
                (case map_of get_question_texts q_num of
                   None \<Rightarrow> Inl KeyError
                 | Some text \<Rightarrow>
                     (case py_truediv (sum_list scores) (int (length scores)) of
                        Inl e \<Rightarrow> Inl e
                      | Inr a \<Rightarrow>
                          Inr (Some \<lparr>qs_text = text,
                                     qs_average = py_round2 a,
                                     qs_scores = scores,
                                     qs_response_count = length scores,
                                     qs_by_relationship = avg_by_relationship\<rparr>))))
         else Inr None)"

fun question_stats_loop ::
  "survey_response list \<Rightarrow> nat list \<Rightarrow> py_error + (nat \<times> question_stat) list" where
  "question_stats_loop rs [] = Inr []"
| "question_stats_loop rs (q_num # qs) =
     (case question_stat_of rs q_num of
        Inl e \<Rightarrow> Inl e
      | Inr st \<Rightarrow>
          (case question_stats_loop rs qs of
             Inl e \<Rightarrow> Inl e
           | Inr m \<Rightarrow> Inr (case st of None \<Rightarrow> m | Some x \<Rightarrow> (q_num, x) # m)))"

text \<open>
  \<open>all_strengths\<close> / \<open>all_opportunities\<close>: the ranks of each label, over the rankings of
  all responses in turn; then the list \<open>(label, avg_rank, len(ranks))\<close>, sorted.
\<close>

definition collect_ranks :: "ranking list list \<Rightarrow> (string \<times> int list) list" where
  "collect_ranks rows =
     fold (\<lambda>per_response d. fold (\<lambda>k. dict_append (rk_label k) (rk_rank k)) per_response d)
       rows []"

fun average_ranks :: "(string \<times> int list) list \<Rightarrow> py_error + (string \<times> rat \<times> nat) list" where
  "average_ranks [] = Inr []"
| "average_ranks ((label, ranks) # rest) =
     (case py_truediv (sum_list ranks) (int (length ranks)) of
        Inl e \<Rightarrow> Inl e
      | Inr avg_rank \<Rightarrow>
          (case average_ranks rest of
             Inl e \<Rightarrow> Inl e
           | Inr m \<Rightarrow> Inr ((label, avg_rank, length ranks) # m)))"

definition top_ranked :: "ranking list list \<Rightarrow> py_error + (string \<times> rat \<times> nat) list" where
  "top_ranked rows =
     (case average_ranks (collect_ranks rows) of
        Inl e \<Rightarrow> Inl e
      | Inr ranked \<Rightarrow> Inr (sort_reverse (\<lambda>x. fst (snd x)) ranked))"

record report_context =
  response_count :: nat
  participant_count :: nat
  overall_average :: rat
  question_stats :: "(nat \<times> question_stat) list"
  top_strengths :: "(string \<times> rat \<times> nat) list"
  top_opportunities :: "(string \<times> rat \<times> nat) list"
  continue_responses :: "string list"
  stop_responses :: "string list"
  start_responses :: "string list"
  supervisors_count :: nat
  peers_count :: nat
  staff_count :: nat
  students_count :: nat
  community_count :: nat

text \<open>
  \<open>view_report\<close> from \<open>responses = survey.responses.all()\<close> on, for the survey with
  primary key \<open>s\<close>; the result is the template context.
\<close>

definition view_report :: "db \<Rightarrow> nat \<Rightarrow> py_error + report_context" where
  "view_report d s =
     (let rows = responses_all d s; rs = map snd rows in
      case question_stats_loop rs [2..<56] of
        Inl e \<Rightarrow> Inl e
      | Inr stats \<Rightarrow>
      (case top_ranked (map (\<lambda>(pk, r). rankings_all (strength_rankings d) pk) rows) of
        Inl e \<Rightarrow> Inl e
      | Inr strengths \<Rightarrow>
      (case top_ranked (map (\<lambda>(pk, r). rankings_all (opportunity_rankings d) pk) rows) of
        Inl e \<Rightarrow> Inl e
      | Inr opportunities \<Rightarrow>
      (let all_scores = concat (map (\<lambda>(q_num, st). qs_scores st) stats) in
       case (if all_scores \<noteq> []
             then (case py_truediv (sum_list all_scores) (int (length all_scores)) of
                     Inl e \<Rightarrow> Inl e
                   | Inr a \<Rightarrow> Inr (py_round2 a))
             else Inr 0) of
         Inl e \<Rightarrow> Inl e
       | Inr overall \<Rightarrow>
           Inr \<lparr>response_count = length rs,
                participant_count = length (filter (\<lambda>r. \<not> is_leader_self_assessment r) rs),
                overall_average = overall,
                question_stats = stats,
                top_strengths = take 10 strengths,
                top_opportunities = take 10 opportunities,
                continue_responses = filter (\<lambda>t. t \<noteq> []) (map continue_doing rs),
                stop_responses = filter (\<lambda>t. t \<noteq> []) (map stop_doing rs),
                start_responses = filter (\<lambda>t. t \<noteq> []) (map start_doing rs),
                supervisors_count = length (filter (\<lambda>r. relationship r = ''supervisor'') rs),
                peers_count = length (filter (\<lambda>r. relationship r = ''peer'') rs),
                staff_count = length (filter (\<lambda>r. relationship r = ''teacher'') rs),
                students_count = length (filter (\<lambda>r. relationship r = ''student'') rs),
                community_count = length (filter (\<lambda>r. relationship r = ''parent'') rs)\<rparr>))))"


subsection \<open>Python strings\<close>

text \<open>
  A character is a code point below 256, so a string is a Python \<open>str\<close> of such code
  points. \<open>str.strip()\<close> removes the whitespace characters from both ends: in this range
  they are \<open>0x09\<close>..\<open>0x0D\<close>, \<open>0x1C\<close>..\<open>0x20\<close>, \<open>0x85\<close> and \<open>0xA0\<close>.
  \<open>str.lower()\<close> maps the uppercase letters, \<open>A\<close>..\<open>Z\<close> and \<open>0xC0\<close>..\<open>0xDE\<close>
  without \<open>0xD7\<close>, to the code point 32 higher. \<open>s.split(c)\<close> cuts at every occurrence of
  the character \<open>c\<close>.
\<close>

definition is_space :: "char \<Rightarrow> bool" where
  "is_space c \<longleftrightarrow> of_char c \<in> {9, 10, 11, 12, 13, 28, 29, 30, 31, 32, 133, 160 :: nat}"

definition strip :: "string \<Rightarrow> string" where
  "strip s = rev (dropWhile is_space (rev (dropWhile is_space s)))"

definition lower_char :: "char \<Rightarrow> char" where
  "lower_char c =
     (let n = of_char c :: nat
      in if (65 \<le> n \<and> n \<le> 90) \<or> (192 \<le> n \<and> n \<le> 222 \<and> n \<noteq> 215)
         then char_of (n + 32) else c)"

definition lower :: "string \<Rightarrow> string" where
  "lower s = map lower_char s"

fun py_split :: "char \<Rightarrow> string \<Rightarrow> string list" where
  "py_split sep [] = [[]]"
| "py_split sep (c # cs) =
     (if c = sep then [] # py_split sep cs
      else (case py_split sep cs of
              [] \<Rightarrow> [[c]]
            | p # ps \<Rightarrow> (c # p) # ps))"

subsection \<open>\<open>forms.InvitationForm\<close>\<close>

datatype clean_error = ValidationError string | Raised py_error

text \<open>
  The body of \<open>for line in emails_text.split('\n')\<close>, with the list \<open>emails\<close> built so
  far. \<open>email.split('@')[1]\<close> is only reached when \<open>'@' in email\<close>.
\<close>

fun clean_emails_loop :: "string list \<Rightarrow> string list \<Rightarrow> clean_error + string list" where
  "clean_emails_loop [] emails = Inr emails"
| "clean_emails_loop (line # rest) emails =
     (let email = strip line in
      if email \<noteq> [] then
        (if CHR ''@'' \<notin> set email then Inl (ValidationError (''Invalid email address: '' @ email))
         else (case py_split CHR ''@'' email of
                 a # b # _ \<Rightarrow>
                   if CHR ''.'' \<notin> set b
                   then Inl (ValidationError (''Invalid email address: '' @ email))
                   else clean_emails_loop rest (emails @ [lower email])
               | _ \<Rightarrow> Inl (Raised IndexError)))
      else clean_emails_loop rest emails)"

definition clean_emails :: "string \<Rightarrow> clean_error + string list" where
  "clean_emails emails_text =
     (case clean_emails_loop (py_split CHR 0x0A emails_text) [] of
        Inl e \<Rightarrow> Inl e
      | Inr emails \<Rightarrow>
          if emails = [] then Inl (ValidationError ''Please enter at least one email address'')
          else Inr emails)"


subsection \<open>Forms: fields, errors, results\<close>

datatype form_field =
    F_emails | F_expires_at | F_relationship | F_q nat
  | F_continue_doing | F_stop_doing | F_start_doing | F_strengths | F_opportunities

text \<open>
  The framework's messages: \<open>Required\<close> for a missing value, \<open>InvalidChoice\<close> for a value
  outside the field's choices, \<open>NullCharacters\<close> for text with a NUL character,
  \<open>InvalidDate\<close> for a date that does not parse. \<open>Message\<close> carries the text of a
  \<open>ValidationError\<close> raised by a \<open>clean_*\<close> method of \<open>forms.py\<close>.
\<close>

datatype form_error = Required | InvalidChoice string | NullCharacters | InvalidDate | Message string

datatype 'a form_result = Cleaned 'a | Errors "(form_field \<times> form_error) list" | Exception py_error

datatype 'p request = GET | POST 'p

text \<open>
  What the framework's \<open>CharField\<close> does with a posted value before a \<open>clean_*\<close>
  method sees it: the value is stripped, an empty one is an error if the field is
  required, and a NUL character is an error.
\<close>

definition char_field_clean :: "bool \<Rightarrow> string option \<Rightarrow> form_error + string" where
  "char_field_clean required v =
     (let text = (case v of None \<Rightarrow> [] | Some raw \<Rightarrow> strip raw)
      in if text = [] then (if required then Inl Required else Inr [])
         else if CHR 0x00 \<in> set text then Inl NullCharacters
         else Inr text)"

text \<open>
  The POST data of the invitation form: the text area, and the date as the
  \<open>DateTimeField\<close> reads it: missing, not a date, or a time.
\<close>

datatype date_input = NoDate | BadDate | DateTime int

record invitation_post =
  post_emails :: "string option"
  post_expires_at :: date_input

definition expires_at_errors :: "date_input \<Rightarrow> (form_field \<times> form_error) list" where
  "expires_at_errors v =
     (case v of
        NoDate \<Rightarrow> [(F_expires_at, Required)]
      | BadDate \<Rightarrow> [(F_expires_at, InvalidDate)]
      | DateTime t \<Rightarrow> [])"

text \<open>
  \<open>form.is_valid()\<close> for \<open>InvitationForm\<close>: the field \<open>emails\<close> is cleaned as a
  required \<open>CharField\<close>, then \<open>clean_emails\<close> runs on the stripped text; a
  \<open>ValidationError\<close> becomes an error of the field \<open>emails\<close>.
\<close>

definition InvitationForm_clean :: "invitation_post \<Rightarrow> (string list \<times> int) form_result" where
  "InvitationForm_clean p =
     (case char_field_clean True (post_emails p) of
        Inl err \<Rightarrow> Errors ((F_emails, err) # expires_at_errors (post_expires_at p))
      | Inr emails_text \<Rightarrow>
          (case clean_emails emails_text of
             Inl (Raised e) \<Rightarrow> Exception e
           | Inl (ValidationError m) \<Rightarrow>
               Errors ((F_emails, Message m) # expires_at_errors (post_expires_at p))
           | Inr emails \<Rightarrow>
               (case post_expires_at p of
                  DateTime t \<Rightarrow> Cleaned (emails, t)
                | _ \<Rightarrow> Errors (expires_at_errors (post_expires_at p)))))"

subsection \<open>\<open>utils.get_strength_choices\<close>, \<open>utils.get_opportunity_choices\<close>\<close>

definition get_strength_choices :: "string list" where
  "get_strength_choices =
     [''Ability to guide others towards a common goal'',
      ''Possesses excellent oral communication skills'',
      ''Possesses effective written communication skills'',
      ''Great listener'',
      ''Expresses ideas clearly'',
      ''Supports teacher professional development'',
      ''Supports teachers in implementing effective instructional strategies'',
      ''Ability to build positive relationships with others'',
      ''Supports collaboration among all school stakeholders'',
      ''Ability to analyze challenges and implement solutions'',
      ''Creates a positive school culture'',
      ''Promotes and encourages innovation'',
      ''Supports and encourages continuous improvement'',
      ''Makes timely decisions aligned with school mission and goals'',
      ''Decisions encompass the needs of all stakeholders'',
      ''Uses data to inform major decisions'',
      ''Effectively manages emotions'',
      ''Resilient in effectively navigating change'',
      ''Able to navigate challenges and obstacles'',
      ''Has a clear vision for the school'',
      ''Able to motivate others to work towards shared goals'',
      ''Maintains a high level of integrity'',
      ''Create a positive school environment'',
      ''Committed to learning and growing professionally'',
      ''Is up to date on the latest research and best practices'']"

definition get_opportunity_choices :: "string list" where
  "get_opportunity_choices =
     [''Lacks a clear vision for the school'',
      ''Struggles to verbally communicate ideas'',
      ''Struggles to communicate in written formats'',
      ''Leadership contributes to low morale'',
      ''Resistant to change'',
      ''Struggles to foster collaboration'',
      ''Leadership promotes a lack of trust among others'',
      ''Struggles to address issues effectively'',
      ''Micromanages others'',
      ''Inhibits autonomy and creativity'',
      ''Provide more sufficient PD opportunities for all staff'',
      ''Struggles to create a positive school culture'',
      ''Improve skills to effectively engage parents or community'',
      ''Needs to improve listening skills'',
      ''Difficulty expressing ideas'',
      ''Should delegate more effectively (distribution of tasks)'',
      ''Could improve their feedback processes'',
      ''Could improve their problem solving skills'',
      ''Seems to not follow through'',
      ''Could improve their appreciation for diverse perspectives'',
      ''Could recognize others more often'']"

subsection \<open>More Python: \<open>str(n)\<close>, \<open>int(s)\<close>, \<open>xs[i]\<close>\<close>

definition digit_char :: "nat \<Rightarrow> char" where
  "digit_char n = char_of (48 + n)"

fun str_nat :: "nat \<Rightarrow> string" where
  "str_nat n = (if n < 10 then [digit_char n] else str_nat (n div 10) @ [digit_char (n mod 10)])"

declare str_nat.simps [simp del]

definition is_digit :: "char \<Rightarrow> bool" where
  "is_digit c \<longleftrightarrow> 48 \<le> (of_char c :: nat) \<and> (of_char c :: nat) \<le> 57"

definition digits_value :: "string \<Rightarrow> nat" where
  "digits_value ds = foldl (\<lambda>n c. 10 * n + (of_char c - 48)) 0 ds"

text \<open>
  \<open>int(s)\<close> for a string: surrounding whitespace is dropped, a sign is allowed, the
  digits may be grouped by single underscores; anything else is a \<open>ValueError\<close>.
\<close>

definition py_int :: "string \<Rightarrow> py_error + int" where
  "py_int s =
     (let t = strip s;
          neg = (t \<noteq> [] \<and> hd t = CHR ''-'');
          body = (if t \<noteq> [] \<and> (hd t = CHR ''-'' \<or> hd t = CHR ''+'') then tl t else t);
          groups = py_split CHR ''_'' body
      in if list_all (\<lambda>g. g \<noteq> [] \<and> list_all is_digit g) groups
         then Inr ((if neg then - 1 else 1) * int (digits_value (concat groups)))
         else Inl ValueError)"

definition py_getitem :: "'a list \<Rightarrow> int \<Rightarrow> py_error + 'a" where
  "py_getitem xs i =
     (if 0 \<le> i \<and> i < int (length xs) then Inr (xs ! nat i)
      else if i < 0 \<and> - int (length xs) \<le> i then Inr (xs ! nat (int (length xs) + i))
      else Inl IndexError)"

subsection \<open>\<open>forms.SurveyResponseForm\<close> and \<open>forms.LeaderSelfAssessmentForm\<close>\<close>

text \<open>
  The POST data, indexed the way the code reads it: \<open>post_q p i\<close> is the value posted
  for \<open>q{i}_response\<close>, \<open>post_strengths\<close> is \<open>getlist('strengths')\<close>, and
  \<open>post_strength_rank p sid\<close> is \<open>request.POST.get(f'strength_rank_{sid}')\<close>.
\<close>

record survey_post =
  post_relationship :: "string option"
  post_q :: "nat \<Rightarrow> string option"
  post_continue_doing :: "string option"
  post_stop_doing :: "string option"
  post_start_doing :: "string option"
  post_strengths :: "string list"
  post_opportunities :: "string list"
  post_strength_rank :: "string \<Rightarrow> string option"
  post_opportunity_rank :: "string \<Rightarrow> string option"

record cleaned_response =
  c_relationship :: string
  c_q :: "nat \<Rightarrow> string"
  c_continue_doing :: string
  c_stop_doing :: string
  c_start_doing :: string
  c_strengths :: "string list"
  c_opportunities :: "string list"

definition likert_choices :: "string list" where
  "likert_choices =
     [''significantly_above'', ''above'', ''slightly_above'', ''meets'',
      ''slightly_below'', ''below'', ''significantly_below'']"

definition participant_choices :: "string list" where
  "participant_choices = [''supervisor'', ''peer'', ''teacher'', ''student'', ''parent'']"

text \<open>A required field with choices: the errors it adds.\<close>

definition choice_errors :: "form_field \<Rightarrow> string list \<Rightarrow> string option \<Rightarrow> (form_field \<times> form_error) list" where
  "choice_errors f choices v =
     (case v of
        None \<Rightarrow> [(f, Required)]
      | Some x \<Rightarrow>
          if x = [] then [(f, Required)]
          else if x \<notin> set choices then [(f, InvalidChoice x)]
          else [])"

text \<open>
  A required \<open>MultipleChoiceField\<close> whose keys are \<open>str(i)\<close> for the positions of the
  choice list, followed by the form's \<open>clean_strengths\<close> / \<open>clean_opportunities\<close>:
  \<^verbatim>\<open>if len(strengths) != 5: raise forms.ValidationError(...)\<close>
\<close>

definition multiple_choice_errors ::
  "form_field \<Rightarrow> nat \<Rightarrow> string \<Rightarrow> string list \<Rightarrow> (form_field \<times> form_error) list" where
  "multiple_choice_errors f n_choices message vs =
     (if vs = [] then [(f, Required)]
      else (case find (\<lambda>v. v \<notin> set (map str_nat [0..<n_choices])) vs of
              Some v \<Rightarrow> [(f, InvalidChoice v)]
            | None \<Rightarrow> if length vs \<noteq> 5 then [(f, Message message)] else []))"

definition clean_strengths :: "string list \<Rightarrow> (form_field \<times> form_error) list" where
  "clean_strengths vs =
     multiple_choice_errors F_strengths (length get_strength_choices)
       ''Please select exactly 5 strengths.'' vs"

definition clean_opportunities :: "string list \<Rightarrow> (form_field \<times> form_error) list" where
  "clean_opportunities vs =
     multiple_choice_errors F_opportunities (length get_opportunity_choices)
       ''Please select exactly 5 opportunities for improvement.'' vs"

definition text_value :: "string option \<Rightarrow> string" where
  "text_value v = (case v of None \<Rightarrow> [] | Some t \<Rightarrow> strip t)"

text \<open>The three optional text areas: the errors they add.\<close>

definition text_errors :: "form_field \<Rightarrow> string option \<Rightarrow> (form_field \<times> form_error) list" where
  "text_errors f v = (case char_field_clean False v of Inl err \<Rightarrow> [(f, err)] | Inr text \<Rightarrow> [])"

definition free_text_errors :: "survey_post \<Rightarrow> (form_field \<times> form_error) list" where
  "free_text_errors p =
     text_errors F_continue_doing (post_continue_doing p) @
     text_errors F_stop_doing (post_stop_doing p) @
     text_errors F_start_doing (post_start_doing p)"

definition cleaned_of :: "survey_post \<Rightarrow> cleaned_response" where
  "cleaned_of p =
     \<lparr>c_relationship = text_value (post_relationship p),
      c_q = (\<lambda>i. case post_q p i of None \<Rightarrow> [] | Some v \<Rightarrow> v),
      c_continue_doing = text_value (post_continue_doing p),
      c_stop_doing = text_value (post_stop_doing p),
      c_start_doing = text_value (post_start_doing p),
      c_strengths = post_strengths p,
      c_opportunities = post_opportunities p\<rparr>"

definition SurveyResponseForm_errors :: "survey_post \<Rightarrow> (form_field \<times> form_error) list" where
  "SurveyResponseForm_errors p =
     choice_errors F_relationship participant_choices (post_relationship p) @
     concat (map (\<lambda>i. choice_errors (F_q i) likert_choices (post_q p i)) [2..<56]) @
     free_text_errors p @
     clean_strengths (post_strengths p) @
     clean_opportunities (post_opportunities p)"

definition SurveyResponseForm_clean :: "survey_post \<Rightarrow> cleaned_response form_result" where
  "SurveyResponseForm_clean p =
     (if SurveyResponseForm_errors p = []
      then Cleaned ((cleaned_of p)\<lparr>c_relationship := the (post_relationship p)\<rparr>)
      else Errors (SurveyResponseForm_errors p))"

definition LeaderSelfAssessmentForm_errors :: "survey_post \<Rightarrow> (form_field \<times> form_error) list" where
  "LeaderSelfAssessmentForm_errors p =
     concat (map (\<lambda>i. choice_errors (F_q i) likert_choices (post_q p i)) [2..<56]) @
     free_text_errors p @
     clean_strengths (post_strengths p) @
     clean_opportunities (post_opportunities p)"

definition LeaderSelfAssessmentForm_clean :: "survey_post \<Rightarrow> cleaned_response form_result" where
  "LeaderSelfAssessmentForm_clean p =
     (if LeaderSelfAssessmentForm_errors p = []
      then Cleaned ((cleaned_of p)\<lparr>c_relationship := []\<rparr>)
      else Errors (LeaderSelfAssessmentForm_errors p))"

subsection \<open>What a view returns\<close>

datatype message =
    Invitations_sent nat
  | Invitations_failed "string list"
  | Thank_you
  | Self_assessment_completed
  | Self_assessment_already_completed

datatype json_body = JsonError string | JsonException py_error | JsonSuccess string

text \<open>
  \<open>Render\<close>: a template with the form's errors; \<open>Redirect\<close>: a URL name with the
  messages queued; \<open>ServerError\<close>: an exception the view does not catch.
\<close>

datatype http_result =
    Render string "(form_field \<times> form_error) list"
  | Redirect string "message list"
  | JsonResponse nat json_body
  | NotFound
  | ServerError py_error

subsection \<open>Queries and writes\<close>

text \<open>\<open>SurveyInvitation.objects.get(token=token)\<close>; the column is unique.\<close>

definition find_invitation :: "db \<Rightarrow> string \<Rightarrow> (nat \<times> invitation) option" where
  "find_invitation d token =
     find (\<lambda>(pk, iv). inv_token iv = token) (enumerate 0 (invitations d))"

definition find_survey :: "db \<Rightarrow> string \<Rightarrow> (nat \<times> survey) option" where
  "find_survey d token =
     find (\<lambda>(pk, sv). leader_token sv = token) (enumerate 0 (surveys d))"

text \<open>
  The ranking loops of the two web views, on one ranking table:
  \<^verbatim>\<open>for i, strength_id in enumerate(strengths):\<close>
  \<^verbatim>\<open>    rank = request.POST.get(f'strength_rank_{strength_id}', 5-i)\<close>
  \<^verbatim>\<open>    strength_text = get_strength_choices()[int(strength_id)]\<close>
  \<^verbatim>\<open>    StrengthRanking.objects.create(response=response, strength=strength_text, rank=int(rank))\<close>
  \<open>create\<close> raises \<open>IntegrityError\<close> when the table already has the pair
  (response, label). The rows written before an exception stay.
\<close>

fun create_rankings ::
  "string list \<Rightarrow> (string \<Rightarrow> string option) \<Rightarrow> nat \<Rightarrow> (nat \<times> string) list \<Rightarrow> ranking list
     \<Rightarrow> py_error option \<times> ranking list" where
  "create_rankings choices rank_of pk [] tbl = (None, tbl)"
| "create_rankings choices rank_of pk ((i, choice_id) # rest) tbl =
     (case py_int choice_id of
        Inl e \<Rightarrow> (Some e, tbl)
      | Inr n \<Rightarrow>
     (case py_getitem choices n of
        Inl e \<Rightarrow> (Some e, tbl)
      | Inr label \<Rightarrow>
     (case (case rank_of choice_id of None \<Rightarrow> Inr (5 - int i) | Some r \<Rightarrow> py_int r) of
        Inl e \<Rightarrow> (Some e, tbl)
      | Inr rank \<Rightarrow>
          if \<exists>k \<in> set tbl. rk_response k = pk \<and> rk_label k = label
          then (Some IntegrityError, tbl)
          else create_rankings choices rank_of pk rest
                 (tbl @ [\<lparr>rk_response = pk, rk_label = label, rk_rank = rank\<rparr>]))))"

text \<open>
  From \<open>response.save()\<close> to the end of the two ranking loops, shared by
  \<open>participant_survey_view\<close> and \<open>leader_self_assessment_view\<close>.
\<close>

definition save_response_and_rankings ::
  "survey_response \<Rightarrow> survey_post \<Rightarrow> cleaned_response \<Rightarrow> db \<Rightarrow> py_error option \<times> db" where
  "save_response_and_rankings response p c d =
     (let pk = length (responses d);
          d1 = d\<lparr>responses := responses d @ [response]\<rparr>;
          s = create_rankings get_strength_choices (post_strength_rank p) pk
                (enumerate 0 (c_strengths c)) (strength_rankings d1);
          d2 = d1\<lparr>strength_rankings := snd s\<rparr>
      in case fst s of
           Some e \<Rightarrow> (Some e, d2)
         | None \<Rightarrow>
             (let opp = create_rankings get_opportunity_choices (post_opportunity_rank p) pk
                        (enumerate 0 (c_opportunities c)) (opportunity_rankings d2)
              in (fst opp, d2\<lparr>opportunity_rankings := snd opp\<rparr>)))"

definition response_of :: "cleaned_response \<Rightarrow> nat \<Rightarrow> nat option \<Rightarrow> int \<Rightarrow> survey_response" where
  "response_of c s ipk now =
     \<lparr>resp_survey = s, resp_invitation = ipk, relationship = c_relationship c,
      submitted_at = now, is_leader_self_assessment = False, q_response = c_q c,
      continue_doing = c_continue_doing c, stop_doing = c_stop_doing c,
      start_doing = c_start_doing c\<rparr>"

subsection \<open>\<open>views.participant_survey_view\<close>\<close>

definition participant_survey_view ::
  "db \<Rightarrow> int \<Rightarrow> string \<Rightarrow> survey_post request \<Rightarrow> http_result \<times> db" where
  "participant_survey_view d now token req =
     (case find_invitation d token of
        None \<Rightarrow> (Render ''survey/invalid_link.html'' [], d)
      | Some (ipk, invitation) \<Rightarrow>
          if used invitation \<or> is_expired now invitation
          then (Render ''survey/invalid_link.html'' [], d)
          else
            (case req of
               GET \<Rightarrow> (Render ''survey/participant_survey.html'' [], d)
             | POST p \<Rightarrow>
                 (case SurveyResponseForm_clean p of
                    Exception e \<Rightarrow> (ServerError e, d)
                  | Errors es \<Rightarrow> (Render ''survey/participant_survey.html'' es, d)
                  | Cleaned c \<Rightarrow>
                      (case save_response_and_rankings
                              (response_of c (inv_survey invitation) (Some ipk) now) p c d of
                         (Some e, d') \<Rightarrow> (ServerError e, d')
                       | (None, d') \<Rightarrow>
                           (Redirect ''thank_you'' [Thank_you],
                            d'\<lparr>invitations :=
                                 (invitations d')[ipk := invitation\<lparr>used := True,
                                                                  used_at := Some now\<rparr>]\<rparr>)))))"

subsection \<open>\<open>views.leader_self_assessment_view\<close>\<close>

definition leader_self_assessment_view ::
  "db \<Rightarrow> int \<Rightarrow> string \<Rightarrow> survey_post request \<Rightarrow> http_result \<times> db" where
  "leader_self_assessment_view d now token req =
     (case find_survey d token of
        None \<Rightarrow> (NotFound, d)
      | Some (spk, sv) \<Rightarrow>
          if leader_completed_self sv
          then (Redirect ''leader_dashboard'' [Self_assessment_already_completed], d)
          else
            (case req of
               GET \<Rightarrow> (Render ''survey/leader_self_assessment_full.html'' [], d)
             | POST p \<Rightarrow>
                 (case LeaderSelfAssessmentForm_clean p of
                    Exception e \<Rightarrow> (ServerError e, d)
                  | Errors es \<Rightarrow> (Render ''survey/leader_self_assessment_full.html'' es, d)
                  | Cleaned c \<Rightarrow>
                      (case save_response_and_rankings
                              ((response_of c spk None now)
                                 \<lparr>relationship := ''self'', is_leader_self_assessment := True\<rparr>)
                              p c d of
                         (Some e, d') \<Rightarrow> (ServerError e, d')
                       | (None, d') \<Rightarrow>
                           (Redirect ''leader_dashboard'' [Self_assessment_completed],
                            d'\<lparr>surveys :=
                                 (surveys d')[spk := sv\<lparr>leader_completed_self := True\<rparr>]\<rparr>)))))"

subsection \<open>\<open>views.leader_dashboard_view\<close>\<close>

text \<open>
  The loop \<open>for email in emails\<close>. \<open>gen\<close> stands for \<open>generate_token\<close>, the default of
  the token column: \<open>gen n\<close> is the token drawn for the row with primary key \<open>n\<close>;
  \<open>create\<close> raises \<open>IntegrityError\<close> if the unique token is taken. \<open>mail\<close> tells
  whether \<open>send_survey_invitation\<close> succeeds (an exception counts as a failure, as in
  the view). The state is the database, \<open>created_count\<close> and \<open>failed_emails\<close>.
\<close>

fun send_invitations ::
  "(nat \<Rightarrow> string) \<Rightarrow> (invitation \<Rightarrow> bool) \<Rightarrow> nat \<Rightarrow> int \<Rightarrow> string list
     \<Rightarrow> db \<Rightarrow> nat \<Rightarrow> string list \<Rightarrow> py_error option \<times> db \<times> nat \<times> string list" where
  "send_invitations gen mail spk expires [] d created_count failed_emails =
     (None, d, created_count, failed_emails)"
| "send_invitations gen mail spk expires (email # rest) d created_count failed_emails =
     (if \<not> (\<exists>iv \<in> set (invitations d). inv_survey iv = spk \<and> inv_email iv = email)
      then
        (let token = gen (length (invitations d)) in
         if \<exists>iv \<in> set (invitations d). inv_token iv = token
         then (Some IntegrityError, d, created_count, failed_emails)
         else
           (let invitation = \<lparr>inv_survey = spk, inv_email = email, inv_token = token,
                               expires_at = expires, used = False, used_at = None\<rparr>;
                d' = d\<lparr>invitations := invitations d @ [invitation]\<rparr>
            in if mail invitation
               then send_invitations gen mail spk expires rest d' (created_count + 1) failed_emails
               else send_invitations gen mail spk expires rest d' created_count
                      (failed_emails @ [email])))
      else send_invitations gen mail spk expires rest d created_count failed_emails)"

definition leader_dashboard_view ::
  "(nat \<Rightarrow> string) \<Rightarrow> (invitation \<Rightarrow> bool) \<Rightarrow> db \<Rightarrow> string \<Rightarrow> invitation_post request
     \<Rightarrow> http_result \<times> db" where
  "leader_dashboard_view gen mail d token req =
     (case find_survey d token of
        None \<Rightarrow> (NotFound, d)
      | Some (spk, sv) \<Rightarrow>
          if \<not> leader_completed_self sv then (Redirect ''leader_self_assessment'' [], d)
          else
            (case req of
               GET \<Rightarrow> (Render ''survey/leader_dashboard.html'' [], d)
             | POST p \<Rightarrow>
                 (case InvitationForm_clean p of
                    Exception e \<Rightarrow> (ServerError e, d)
                  | Errors es \<Rightarrow> (Render ''survey/leader_dashboard.html'' es, d)
                  | Cleaned (emails, expires) \<Rightarrow>
                      (case send_invitations gen mail spk expires emails d 0 [] of
                         (Some e, d', created_count, failed_emails) \<Rightarrow> (ServerError e, d')
                       | (None, d', created_count, failed_emails) \<Rightarrow>
                           (Redirect ''leader_dashboard''
                              ((if created_count > 0 then [Invitations_sent created_count] else []) @
                               (if failed_emails \<noteq> [] then [Invitations_failed failed_emails]
                                else [])),
                            d')))))"

subsection \<open>\<open>views.api_submit_survey\<close>\<close>

text \<open>
  The JSON object of the request body, with the keys the view reads; \<open>None\<close> is a
  missing key. A ranking item has the keys \<open>text\<close> and \<open>rank\<close>.
\<close>

record ranking_data =
  rd_text :: "string option"
  rd_rank :: "int option"

record api_data =
  api_invitation_token :: "string option"
  api_relationship :: "string option"
  api_q :: "nat \<Rightarrow> string option"
  api_continue_doing :: "string option"
  api_stop_doing :: "string option"
  api_start_doing :: "string option"
  api_strengths :: "ranking_data list"
  api_opportunities :: "ranking_data list"

fun create_rankings_api :: "nat \<Rightarrow> ranking_data list \<Rightarrow> ranking list \<Rightarrow> py_error option \<times> ranking list" where
  "create_rankings_api pk [] tbl = (None, tbl)"
| "create_rankings_api pk (item # rest) tbl =
     (case rd_text item of
        None \<Rightarrow> (Some KeyError, tbl)
      | Some label \<Rightarrow>
          (case rd_rank item of
             None \<Rightarrow> (Some KeyError, tbl)
           | Some rank \<Rightarrow>
               if \<exists>k \<in> set tbl. rk_response k = pk \<and> rk_label k = label
               then (Some IntegrityError, tbl)
               else create_rankings_api pk rest
                      (tbl @ [\<lparr>rk_response = pk, rk_label = label, rk_rank = rank\<rparr>])))"

text \<open>
  The first part of the \<open>try\<close> block: which survey, which invitation (if any), or the
  response that ends the request.
\<close>

definition api_target ::
  "db \<Rightarrow> int \<Rightarrow> string \<Rightarrow> api_data \<Rightarrow> http_result + (nat \<times> (nat \<times> invitation) option \<times> survey option)" where
  "api_target d now token data =
     (case api_invitation_token data of
        Some t \<Rightarrow>
          (case find_invitation d t of
             None \<Rightarrow> Inl (JsonResponse 500 (JsonException Http404))
           | Some (ipk, invitation) \<Rightarrow>
               if used invitation
               then Inl (JsonResponse 400 (JsonError ''Survey already completed''))
               else if is_expired now invitation
               then Inl (JsonResponse 400 (JsonError ''Survey link expired''))
               else Inr (inv_survey invitation, Some (ipk, invitation), None))
      | None \<Rightarrow>
          (case find_survey d token of
             None \<Rightarrow> Inl (JsonResponse 500 (JsonException Http404))
           | Some (spk, sv) \<Rightarrow>
               if leader_completed_self sv
               then Inl (JsonResponse 400 (JsonError ''Self-assessment already completed''))
               else Inr (spk, None, Some sv)))"

text \<open>
  \<open>body\<close> is the parsed request body, \<open>None\<close> when \<open>json.loads\<close> raises. Every
  exception inside the \<open>try\<close> becomes a JSON answer with status 500; what was written
  before it stays. A missing \<open>relationship\<close> or \<open>q{i}\<close> is \<open>None\<close> in a column that
  does not accept it.
\<close>

definition api_submit_survey ::
  "db \<Rightarrow> int \<Rightarrow> string \<Rightarrow> api_data option \<Rightarrow> http_result \<times> db" where
  "api_submit_survey d now token body =
     (case body of
        None \<Rightarrow> (JsonResponse 500 (JsonException JSONDecodeError), d)
      | Some data \<Rightarrow>
     (case api_target d now token data of
        Inl r \<Rightarrow> (r, d)
      | Inr (spk, inv_opt, sv_opt) \<Rightarrow>
          if api_relationship data = None \<or> (\<exists>i \<in> set [2..<56]. api_q data i = None)
          then (JsonResponse 500 (JsonException IntegrityError), d)
          else
            (let response =
                   \<lparr>resp_survey = spk, resp_invitation = map_option fst inv_opt,
                    relationship = the (api_relationship data), submitted_at = now,
                    is_leader_self_assessment = (inv_opt = None),
                    q_response = (\<lambda>i. case api_q data i of None \<Rightarrow> [] | Some v \<Rightarrow> v),
                    continue_doing = (case api_continue_doing data of None \<Rightarrow> [] | Some t \<Rightarrow> t),
                    stop_doing = (case api_stop_doing data of None \<Rightarrow> [] | Some t \<Rightarrow> t),
                    start_doing = (case api_start_doing data of None \<Rightarrow> [] | Some t \<Rightarrow> t)\<rparr>;
                 pk = length (responses d);
                 d1 = d\<lparr>responses := responses d @ [response]\<rparr>;
                 s = create_rankings_api pk (api_strengths data) (strength_rankings d1);
                 d2 = d1\<lparr>strength_rankings := snd s\<rparr>
             in case fst s of
                  Some e \<Rightarrow> (JsonResponse 500 (JsonException e), d2)
                | None \<Rightarrow>
                    (let opp = create_rankings_api pk (api_opportunities data) (opportunity_rankings d2);
                         d3 = d2\<lparr>opportunity_rankings := snd opp\<rparr>
                     in case fst opp of
                          Some e \<Rightarrow> (JsonResponse 500 (JsonException e), d3)
                        | None \<Rightarrow>
                            (JsonResponse 200 (JsonSuccess ''Survey submitted successfully''),
                             (case inv_opt of
                                Some (ipk, invitation) \<Rightarrow>
                                  d3\<lparr>invitations :=
                                       (invitations d3)[ipk := invitation\<lparr>used := True,
                                                                        used_at := Some now\<rparr>]\<rparr>
                              | None \<Rightarrow>
                                  (case sv_opt of
                                     Some sv \<Rightarrow>
                                       d3\<lparr>surveys :=
                                            (surveys d3)[spk := sv\<lparr>leader_completed_self := True\<rparr>]\<rparr>
                                   | None \<Rightarrow> d3)))))))"

subsection \<open>Notions used to state the report's properties\<close>

text \<open>
  These are not code of the application. \<open>relationship_group\<close> is the expression
  \<^verbatim>\<open>'self' if response.is_leader_self_assessment else response.relationship\<close>;
  \<open>question_scores\<close> are the scores of the non-empty answers to one question;
  \<open>exact_mean\<close> is the arithmetic mean and \<open>mean\<close> the double nearest to it, which is
  what \<open>sum(xs) / len(xs)\<close> returns; \<open>first_seen\<close> lists the distinct elements of a list in
  the order of their first occurrence; \<open>rank_entries\<close> has, for each distinct label in
  first-seen order, the label, the mean of its ranks and their number;
  \<open>ranked_by_mean rows full\<close> says that \<open>full\<close> is \<open>rank_entries rows\<close> rearranged
  into descending order of mean rank, entries of equal mean keeping their order.
\<close>

definition relationship_group :: "survey_response \<Rightarrow> string" where
  "relationship_group r = (if is_leader_self_assessment r then ''self'' else relationship r)"

definition question_scores :: "survey_response list \<Rightarrow> nat \<Rightarrow> int list" where
  "question_scores rs q =
     map (\<lambda>r. calculate_likert_score (q_response r q)) (filter (\<lambda>r. q_response r q \<noteq> []) rs)"

definition group_scores :: "survey_response list \<Rightarrow> nat \<Rightarrow> string \<Rightarrow> int list" where
  "group_scores rs q rel = question_scores (filter (\<lambda>r. relationship_group r = rel) rs) q"

definition exact_mean :: "int list \<Rightarrow> rat" where
  "exact_mean xs = of_int (sum_list xs) / of_int (int (length xs))"

definition mean :: "int list \<Rightarrow> rat" where
  "mean xs = to_double (exact_mean xs)"

definition relationship_average :: "survey_response list \<Rightarrow> nat \<Rightarrow> string \<Rightarrow> rat option" where
  "relationship_average rs q rel =
     (if group_scores rs q rel \<noteq> [] then Some (py_round2 (mean (group_scores rs q rel))) else None)"

definition expected_stat :: "survey_response list \<Rightarrow> nat \<Rightarrow> question_stat" where
  "expected_stat rs q =
     \<lparr>qs_text = the (map_of get_question_texts q),
      qs_average = py_round2 (mean (question_scores rs q)),
      qs_scores = question_scores rs q,
      qs_response_count = length (question_scores rs q),
      qs_by_relationship =
        map (\<lambda>rel. (rel, relationship_average rs q rel)) (map fst scores_by_relationship_init)\<rparr>"

definition first_seen :: "'a list \<Rightarrow> 'a list" where
  "first_seen xs = rev (remdups (rev xs))"

definition label_ranks :: "ranking list \<Rightarrow> string \<Rightarrow> int list" where
  "label_ranks rows l = map rk_rank (filter (\<lambda>k. rk_label k = l) rows)"

definition rank_entries :: "ranking list \<Rightarrow> (string \<times> rat \<times> nat) list" where
  "rank_entries rows =
     map (\<lambda>l. (l, mean (label_ranks rows l), length (label_ranks rows l)))
       (first_seen (map rk_label rows))"

definition report_responses :: "db \<Rightarrow> nat \<Rightarrow> survey_response list" where
  "report_responses d s = map snd (responses_all d s)"

definition report_rankings :: "db \<Rightarrow> nat \<Rightarrow> ranking list \<Rightarrow> ranking list" where
  "report_rankings d s tbl = concat (map (\<lambda>(pk, r). rankings_all tbl pk) (responses_all d s))"

text \<open>
  What the report reads from a ranking table, said on the table itself: \<open>of_survey\<close>
  are the rows whose response belongs to the survey, and \<open>survey_rankings\<close> lists them
  in the order the report meets them: the rows of a later submitted response first (of two
  responses submitted at the same time, the one created first), and of one response the
  higher rank first (of equal ranks, the row created first).
\<close>

definition of_survey :: "db \<Rightarrow> nat \<Rightarrow> ranking \<Rightarrow> bool" where
  "of_survey d s k \<longleftrightarrow>
     rk_response k < length (responses d) \<and> resp_survey (responses d ! rk_response k) = s"

definition visit_key :: "db \<Rightarrow> ranking \<Rightarrow> int \<times> nat \<times> int" where
  "visit_key d k = (- submitted_at (responses d ! rk_response k), rk_response k, - rk_rank k)"

definition survey_rankings :: "db \<Rightarrow> nat \<Rightarrow> ranking list \<Rightarrow> ranking list" where
  "survey_rankings d s tbl = sort_key (visit_key d) (filter (of_survey d s) tbl)"

definition answered_questions :: "survey_response list \<Rightarrow> nat list" where
  "answered_questions rs = filter (\<lambda>q. question_scores rs q \<noteq> []) [2..<56]"

definition ranked_by_mean :: "ranking list \<Rightarrow> (string \<times> rat \<times> nat) list \<Rightarrow> bool" where
  "ranked_by_mean rows full \<longleftrightarrow>
     mset full = mset (rank_entries rows) \<and>
     sorted_wrt (\<lambda>x y. fst (snd x) \<ge> fst (snd y)) full \<and>
     (\<forall>a. filter (\<lambda>x. fst (snd x) = a) full = filter (\<lambda>x. fst (snd x) = a) (rank_entries rows))"

text \<open>Example databases for the concrete instances below.\<close>

definition meets_response :: survey_response where
  "meets_response =
     \<lparr>resp_survey = 0, resp_invitation = None, relationship = ''peer'', submitted_at = 10,
      is_leader_self_assessment = False, q_response = (\<lambda>q. ''meets''),
      continue_doing = [], stop_doing = [], start_doing = []\<rparr>"

definition meets_db :: db where
  "meets_db = \<lparr>surveys = [], invitations = [], responses = [meets_response],
                strength_rankings = [], opportunity_rankings = []\<rparr>"

definition empty_db :: db where
  "empty_db = \<lparr>surveys = [], invitations = [], responses = [],
                strength_rankings = [], opportunity_rankings = []\<rparr>"

text \<open>
  Two responses to survey 0, each ranking one strength, with ranks \<open>2\<^sup>5\<^sup>3\<close> and
  \<open>2\<^sup>5\<^sup>3 + 1\<close>.
\<close>

definition float_db :: db where
  "float_db =
     \<lparr>surveys = [], invitations = [],
      responses = [meets_response\<lparr>submitted_at := 2\<rparr>, meets_response\<lparr>submitted_at := 1\<rparr>],
      strength_rankings =
        [\<lparr>rk_response = 0, rk_label = ''a'', rk_rank = 9007199254740992\<rparr>,
         \<lparr>rk_response = 1, rk_label = ''b'', rk_rank = 9007199254740993\<rparr>],
      opportunity_rankings = []\<rparr>"

subsection \<open>Notions used to state the invitation form's properties\<close>

text \<open>
  Not code of the application. \<open>email_lines\<close> are the lines of the text area after
  \<open>strip()\<close>, the blank ones left out; \<open>after_first_at e\<close> is the text between the first
  \<open>@\<close> of \<open>e\<close> and its next \<open>@\<close> (or the end); \<open>email_check\<close> is the test the form
  applies; \<open>at_then_dot\<close> is the specification's wording, an \<open>@\<close> with a \<open>.\<close>
  somewhere after it. \<open>form_created d s\<close> says that the invitations of survey \<open>s\<close>
  have lowercase addresses, no two the same.
\<close>

definition email_lines :: "string \<Rightarrow> string list" where
  "email_lines emails_text = filter (\<lambda>e. e \<noteq> []) (map strip (py_split CHR 0x0A emails_text))"

definition after_first_at :: "string \<Rightarrow> string" where
  "after_first_at e =
     takeWhile (\<lambda>c. c \<noteq> CHR ''@'') (tl (dropWhile (\<lambda>c. c \<noteq> CHR ''@'') e))"

definition email_check :: "string \<Rightarrow> bool" where
  "email_check e \<longleftrightarrow> CHR ''@'' \<in> set e \<and> CHR ''.'' \<in> set (after_first_at e)"

definition at_then_dot :: "string \<Rightarrow> bool" where
  "at_then_dot e \<longleftrightarrow> CHR ''.'' \<in> set (dropWhile (\<lambda>c. c \<noteq> CHR ''@'') e)"

definition form_created :: "db \<Rightarrow> nat \<Rightarrow> bool" where
  "form_created d s \<longleftrightarrow>
     list_all (\<lambda>iv. lower (inv_email iv) = inv_email iv)
       (filter (\<lambda>iv. inv_survey iv = s) (invitations d)) \<and>
     distinct (map inv_email (filter (\<lambda>iv. inv_survey iv = s) (invitations d)))"

definition invite_text :: string where
  "invite_text = ''ann@school.org'' @ [CHR 0x0A] @ '' bad '' @ [CHR 0x0A] @ ''worse''"

definition invite_post :: invitation_post where
  "invite_post = \<lparr>post_emails = Some invite_text, post_expires_at = DateTime 500\<rparr>"

definition invite_ok_post :: invitation_post where
  "invite_ok_post =
     \<lparr>post_emails = Some ('' Ann@School.ORG'' @ [CHR 0x0A] @ ''Bob@X.y ''),
      post_expires_at = DateTime 500\<rparr>"

definition dashboard_db :: db where
  "dashboard_db =
     \<lparr>surveys = [\<lparr>leader_token = ''lead'', leader_completed_self = True\<rparr>],
      invitations = [\<lparr>inv_survey = 0, inv_email = ''ann@school.org'', inv_token = ''t0'',
                      expires_at = 100, used = False, used_at = None\<rparr>],
      responses = [], strength_rankings = [], opportunity_rankings = []\<rparr>"

definition existing_emails :: "db \<Rightarrow> nat \<Rightarrow> string set" where
  "existing_emails d s = set (map inv_email (filter (\<lambda>iv. inv_survey iv = s) (invitations d)))"

text \<open>An unused invitation of survey 0 that expires at time 100.\<close>

definition boundary_invitation :: invitation where
  "boundary_invitation =
     \<lparr>inv_survey = 0, inv_email = ''a@b.c'', inv_token = ''t'', expires_at = 100,
      used = False, used_at = None\<rparr>"

definition boundary_db :: db where
  "boundary_db =
     \<lparr>surveys = [\<lparr>leader_token = ''lead'', leader_completed_self = True\<rparr>],
      invitations = [boundary_invitation], responses = [],
      strength_rankings = [], opportunity_rankings = []\<rparr>"

text \<open>
  Notions used to state what happens to an invitation. \<open>token_used d t\<close>: the
  invitation that \<open>objects.get(token=t)\<close> finds exists and is marked used.
\<close>

definition token_used :: "db \<Rightarrow> string \<Rightarrow> bool" where
  "token_used d t = (case find_invitation d t of None \<Rightarrow> False | Some (pk, iv) \<Rightarrow> used iv)"

text \<open>
  \<open>invitations_kept d d'\<close>: the invitation table of \<open>d'\<close> extends that of \<open>d\<close>, with
  the same tokens row by row, and every row used in \<open>d\<close> still used in \<open>d'\<close>.
\<close>

definition invitations_kept :: "db \<Rightarrow> db \<Rightarrow> bool" where
  "invitations_kept d d' \<longleftrightarrow>
     length (invitations d) \<le> length (invitations d') \<and>
     list_all2 (\<lambda>a b. inv_token b = inv_token a \<and> (used b \<or> \<not> used a))
       (invitations d) (take (length (invitations d)) (invitations d'))"

text \<open>
  Example requests: a database with one survey and one unused invitation, a valid
  participant form, the same form with four strengths, with six opportunities, with the
  rank \<open>9\<close> and with the rank \<open>4\<close> posted for the first strength, and a JSON body for
  the invitation.
\<close>

definition submit_db :: db where
  "submit_db =
     \<lparr>surveys = [\<lparr>leader_token = ''lead'', leader_completed_self = True\<rparr>],
      invitations = [\<lparr>inv_survey = 0, inv_email = ''ann@school.org'', inv_token = ''tok'',
                      expires_at = 100, used = False, used_at = None\<rparr>],
      responses = [], strength_rankings = [], opportunity_rankings = []\<rparr>"

definition good_post :: survey_post where
  "good_post =
     \<lparr>post_relationship = Some ''peer'', post_q = (\<lambda>i. Some ''meets''),
      post_continue_doing = None, post_stop_doing = None, post_start_doing = None,
      post_strengths = [''0'', ''1'', ''2'', ''3'', ''4''],
      post_opportunities = [''5'', ''6'', ''7'', ''8'', ''9''],
      post_strength_rank = (\<lambda>sid. None), post_opportunity_rank = (\<lambda>sid. None)\<rparr>"

definition rank9_post :: survey_post where
  "rank9_post = good_post\<lparr>post_strength_rank := (\<lambda>sid. if sid = ''0'' then Some ''9'' else None)\<rparr>"



definition api_retry :: api_data where
  "api_retry =
     \<lparr>api_invitation_token = Some ''tok'', api_relationship = Some ''peer'',
      api_q = (\<lambda>i. Some ''meets''), api_continue_doing = None, api_stop_doing = None,
      api_start_doing = None, api_strengths = [], api_opportunities = []\<rparr>"

definition rank4_post :: survey_post where
  "rank4_post = good_post\<lparr>post_strength_rank := (\<lambda>sid. if sid = ''0'' then Some ''4'' else None)\<rparr>"

section \<open>Theorems\<close>

subsection \<open>Likert scores\<close>

lemma map_of_likert_scores_None:
  assumes "v \<notin> {''significantly_above'', ''above'', ''slightly_above'', ''meets'',
                 ''slightly_below'', ''below'', ''significantly_below''}"
  shows "map_of likert_scores v = None"
  using assms unfolding likert_scores_def by simp

text \<open>
  Claim C3. \<open>calculate_likert_score\<close> sends the seven Likert values
  \<open>significantly_above\<close>, \<open>above\<close>, \<open>slightly_above\<close>, \<open>meets\<close>, \<open>slightly_below\<close>,
  \<open>below\<close>, \<open>significantly_below\<close> to 7, 6, 5, 4, 3, 2, 1, and every other string
  (the empty one included) to 4.
\<close>

theorem calculate_likert_score_table:
  "calculate_likert_score ''significantly_above'' = 7 \<and>
   calculate_likert_score ''above'' = 6 \<and>
   calculate_likert_score ''slightly_above'' = 5 \<and>
   calculate_likert_score ''meets'' = 4 \<and>
   calculate_likert_score ''slightly_below'' = 3 \<and>
   calculate_likert_score ''below'' = 2 \<and>
   calculate_likert_score ''significantly_below'' = 1 \<and>
   (\<forall>v. v \<notin> {''significantly_above'', ''above'', ''slightly_above'', ''meets'',
                ''slightly_below'', ''below'', ''significantly_below''}
        \<longrightarrow> calculate_likert_score v = 4)"
proof (intro conjI allI impI)
  fix v :: string
  assume "v \<notin> {''significantly_above'', ''above'', ''slightly_above'', ''meets'',
                ''slightly_below'', ''below'', ''significantly_below''}"
  then have "map_of likert_scores v = None"
    by (rule map_of_likert_scores_None)
  then show "calculate_likert_score v = 4"
    by (simp add: calculate_likert_score_def)
qed (simp_all add: calculate_likert_score_def likert_scores_def)

theorem calculate_likert_score_table_witness:
  "calculate_likert_score ''strongly agree'' = 4 \<and> calculate_likert_score [] = 4"
proof -
  note other = calculate_likert_score_table [THEN conjunct2, THEN conjunct2, THEN conjunct2,
      THEN conjunct2, THEN conjunct2, THEN conjunct2, THEN conjunct2, rule_format]
  have a: "''strongly agree'' \<notin> {''significantly_above'', ''above'', ''slightly_above'',
      ''meets'', ''slightly_below'', ''below'', ''significantly_below''}"
    by simp
  have b: "[] \<notin> {''significantly_above'', ''above'', ''slightly_above'',
      ''meets'', ''slightly_below'', ''below'', ''significantly_below''}"
    by simp
  show ?thesis
    by (rule conjI) (rule other [OF a], rule other [OF b])
qed

subsection \<open>Invitation validity\<close>

text \<open>
  \<open>is_valid\<close> is true exactly when the invitation is unused and the clock is not past
  \<open>expires_at\<close>: \<open>is_expired\<close> compares with \<open>>\<close>.
\<close>

lemma is_valid_iff:
  "is_valid now iv \<longleftrightarrow> \<not> used iv \<and> now \<le> expires_at iv"
  by (auto simp: is_valid_def is_expired_def)

text \<open>
  Claim C5 asks that \<open>is_valid\<close> be true exactly when the invitation is unused and the
  current time is before \<open>expires_at\<close>. At the instant \<open>expires_at\<close> itself the code
  disagrees with the claim and with itself: the invitation is unused and the time is not
  before its expiry, yet \<open>is_valid\<close> is true and \<open>participant_survey_view\<close> shows the
  survey form, while \<open>survey_detail_view\<close> counts the same invitation, at the same time,
  as expired and not as pending.
\<close>

theorem is_valid_at_expiry:
  "is_valid 100 boundary_invitation \<and>
   \<not> used boundary_invitation \<and>
   \<not> 100 < expires_at boundary_invitation \<and>
   fst (participant_survey_view boundary_db 100 ''t'' GET)
     = Render ''survey/participant_survey.html'' [] \<and>
   pending_invitations (survey_detail_stats 100 100 boundary_db 0) = 0 \<and>
   expired_invitations (survey_detail_stats 100 100 boundary_db 0) = 1"
  by code_simp

subsection \<open>The report: what the loops compute\<close>

lemma py_truediv_Inr: "b \<noteq> 0 \<Longrightarrow> py_truediv a b = Inr (to_double (of_int a / of_int b))"
  by (simp add: py_truediv_def)

lemma py_truediv_mean: "xs \<noteq> [] \<Longrightarrow> py_truediv (sum_list xs) (int (length xs)) = Inr (mean xs)"
  by (simp add: py_truediv_def mean_def exact_mean_def)

lemma to_double_4: "to_double 4 = 4"
  by code_simp

lemma average_by_relationship_Inr:
  "average_by_relationship m =
     Inr (map (\<lambda>(rel, xs). (rel, if xs \<noteq> []
            then Some (py_round2 (mean xs)) else None)) m)"
  by (induction m rule: average_by_relationship.induct) (simp_all add: py_truediv_mean)

lemma score_response_fst:
  "fst (score_response q r acc) =
     fst acc @ (if q_response r q \<noteq> [] then [calculate_likert_score (q_response r q)] else [])"
  by (simp add: score_response_def Let_def)

lemma map_update_absent:
  "g \<notin> set (map fst m) \<Longrightarrow>
     map (\<lambda>(k, vs). if k = g then (k, vs @ [x]) else (k, vs)) m = m"
  by (induction m) auto

lemma score_response_snd:
  "snd (score_response q r acc) =
     map (\<lambda>(k, vs). (k, vs @ (if q_response r q \<noteq> [] \<and> relationship_group r = k
                                    then [calculate_likert_score (q_response r q)] else [])))
       (snd acc)"
proof (cases "q_response r q = []")
  case True
  then show ?thesis
    by (simp add: score_response_def split_def)
next
  case False
  define g where "g = relationship_group r"
  define x where "x = calculate_likert_score (q_response r q)"
  have upd: "(if g \<in> set (map fst m)
              then map (\<lambda>(k, vs). if k = g then (k, vs @ [x]) else (k, vs)) m else m)
             = map (\<lambda>(k, vs). (k, vs @ (if g = k then [x] else []))) m"
    for m :: "(string \<times> int list) list"
  proof -
    have "map (\<lambda>(k, vs). if k = g then (k, vs @ [x]) else (k, vs)) m
          = map (\<lambda>(k, vs). (k, vs @ (if g = k then [x] else []))) m"
      by (rule map_cong) auto
    moreover have "map (\<lambda>(k, vs). if k = g then (k, vs @ [x]) else (k, vs)) m = m"
      if "g \<notin> set (map fst m)"
      using that by (rule map_update_absent)
    ultimately show ?thesis
      by (cases "g \<in> set (map fst m)") (simp, metis)
  qed
  have "snd (score_response q r acc) =
          (if g \<in> set (map fst (snd acc))
           then map (\<lambda>(k, vs). if k = g then (k, vs @ [x]) else (k, vs)) (snd acc)
           else snd acc)"
    unfolding g_def x_def relationship_group_def score_response_def Let_def
    using False by simp
  also have "\<dots> = map (\<lambda>(k, vs). (k, vs @ (if g = k then [x] else []))) (snd acc)"
    by (rule upd)
  finally show ?thesis
    unfolding g_def x_def using False by simp
qed

lemma fold_score_response_fst:
  "fst (fold (score_response q) rs acc) = fst acc @ question_scores rs q"
  by (induction rs arbitrary: acc) (simp_all add: question_scores_def score_response_fst)

lemma fold_score_response_snd:
  "snd (fold (score_response q) rs acc) =
     map (\<lambda>(k, vs). (k, vs @ group_scores rs q k)) (snd acc)"
proof (induction rs arbitrary: acc)
  case Nil
  show ?case by (simp add: group_scores_def question_scores_def)
next
  case (Cons r rs)
  show ?case
    by (simp add: Cons.IH score_response_snd group_scores_def question_scores_def
        split_def o_def)
qed

lemma question_text_keys: "map fst get_question_texts = [2..<56]"
  by (simp add: get_question_texts_def upt_rec_numeral)

lemma question_text_defined:
  assumes "q \<in> set [2..<56]"
  shows "\<exists>t. map_of get_question_texts q = Some t"
proof -
  from assms have "q \<in> fst ` set get_question_texts"
    using question_text_keys by (metis set_map)
  then have "map_of get_question_texts q \<noteq> None"
    by (simp add: map_of_eq_None_iff)
  then show ?thesis by blast
qed

lemma init_scores_empty: "\<forall>(k, vs) \<in> set scores_by_relationship_init. vs = []"
  by (simp add: scores_by_relationship_init_def)

lemma by_relationship_value:
  "average_by_relationship (snd (fold (score_response q) rs ([], scores_by_relationship_init)))
     = Inr (map (\<lambda>rel. (rel, relationship_average rs q rel))
              (map fst scores_by_relationship_init))"
  using init_scores_empty
  by (auto simp: average_by_relationship_Inr fold_score_response_snd relationship_average_def
      split_def)

lemma question_stat_of_Inr:
  assumes "q \<in> set [2..<56]"
  shows "question_stat_of rs q =
           Inr (if question_scores rs q = [] then None else Some (expected_stat rs q))"
proof -
  obtain t where t: "map_of get_question_texts q = Some t"
    using question_text_defined [OF assms] by blast
  show ?thesis
    unfolding question_stat_of_def Let_def
    by (simp add: by_relationship_value fold_score_response_fst t py_truediv_mean
        expected_stat_def)
qed

lemma question_stats_loop_Inr:
  assumes "set qs \<subseteq> set [2..<56]"
  shows "question_stats_loop rs qs =
           Inr (map (\<lambda>q. (q, expected_stat rs q)) (filter (\<lambda>q. question_scores rs q \<noteq> []) qs))"
  using assms
proof (induction qs)
  case Nil
  show ?case by simp
next
  case (Cons q qs)
  then have q: "q \<in> set [2..<56]" and qs: "set qs \<subseteq> set [2..<56]"
    by simp_all
  show ?case
    by (simp add: question_stat_of_Inr [OF q] Cons.IH [OF qs])
qed

lemma first_seen_snoc:
  "first_seen (xs @ [x]) = (if x \<in> set xs then first_seen xs else first_seen xs @ [x])"
  by (simp add: first_seen_def)

lemma set_first_seen: "set (first_seen xs) = set xs"
  by (simp add: first_seen_def)

lemma distinct_first_seen: "distinct (first_seen xs)"
  by (simp add: first_seen_def)

lemma dict_append_present:
  assumes "distinct ls" and "l \<in> set ls"
  shows "dict_append l v (map (\<lambda>k. (k, g k)) ls) =
           map (\<lambda>k. (k, if k = l then g k @ [v] else g k)) ls"
  using assms by (induction ls) auto

lemma dict_append_absent:
  assumes "l \<notin> set ls"
  shows "dict_append l v (map (\<lambda>k. (k, g k)) ls) = map (\<lambda>k. (k, g k)) ls @ [(l, [v])]"
  using assms by (induction ls) auto

lemma fold_fold_concat: "fold (\<lambda>xs d. fold f xs d) xss d = fold f (concat xss) d"
  by (induction xss arbitrary: d) simp_all

lemma label_ranks_absent: "l \<notin> rk_label ` set rows \<Longrightarrow> label_ranks rows l = []"
  by (auto simp: label_ranks_def filter_empty_conv)

lemma label_ranks_present: "l \<in> rk_label ` set rows \<Longrightarrow> label_ranks rows l \<noteq> []"
  by (auto simp: label_ranks_def filter_empty_conv)

lemma fold_dict_append:
  "fold (\<lambda>k. dict_append (rk_label k) (rk_rank k)) rows [] =
     map (\<lambda>l. (l, label_ranks rows l)) (first_seen (map rk_label rows))"
proof (induction rows rule: rev_induct)
  case Nil
  show ?case by (simp add: first_seen_def)
next
  case (snoc k rows)
  let ?ls = "first_seen (map rk_label rows)"
  show ?case
  proof (cases "rk_label k \<in> rk_label ` set rows")
    case True
    then have "dict_append (rk_label k) (rk_rank k) (map (\<lambda>l. (l, label_ranks rows l)) ?ls)
        = map (\<lambda>l. (l, if l = rk_label k then label_ranks rows l @ [rk_rank k]
                         else label_ranks rows l)) ?ls"
      by (intro dict_append_present) (simp_all add: distinct_first_seen set_first_seen)
    also have "\<dots> = map (\<lambda>l. (l, label_ranks (rows @ [k]) l)) ?ls"
      by (rule map_cong) (auto simp: label_ranks_def)
    finally show ?thesis
      using True by (simp add: snoc.IH first_seen_snoc)
  next
    case False
    have new: "label_ranks (rows @ [k]) (rk_label k) = [rk_rank k]"
      using label_ranks_absent [OF False] by (simp add: label_ranks_def)
    have old: "map (\<lambda>l. (l, label_ranks rows l)) ?ls
        = map (\<lambda>l. (l, label_ranks (rows @ [k]) l)) ?ls"
      using False by (intro map_cong) (auto simp: label_ranks_def set_first_seen)
    have "fold (\<lambda>k. dict_append (rk_label k) (rk_rank k)) (rows @ [k]) []
        = dict_append (rk_label k) (rk_rank k) (map (\<lambda>l. (l, label_ranks rows l)) ?ls)"
      by (simp add: snoc.IH)
    also have "\<dots> = map (\<lambda>l. (l, label_ranks rows l)) ?ls @ [(rk_label k, [rk_rank k])]"
      using False by (intro dict_append_absent) (simp add: set_first_seen)
    also have "\<dots> = map (\<lambda>l. (l, label_ranks (rows @ [k]) l)) (?ls @ [rk_label k])"
      unfolding old by (simp add: new)
    finally show ?thesis
      using False by (simp add: first_seen_snoc)
  qed
qed

lemma collect_ranks_eq:
  "collect_ranks rows =
     map (\<lambda>l. (l, label_ranks (concat rows) l)) (first_seen (map rk_label (concat rows)))"
  unfolding collect_ranks_def fold_fold_concat by (rule fold_dict_append)

lemma average_ranks_Inr:
  assumes "\<forall>(l, ranks) \<in> set m. ranks \<noteq> []"
  shows "average_ranks m = Inr (map (\<lambda>(l, ranks). (l, mean ranks, length ranks)) m)"
  using assms
  by (induction m rule: average_ranks.induct) (simp_all add: py_truediv_mean)

lemma top_ranked_Inr:
  "top_ranked rows = Inr (sort_reverse (\<lambda>x. fst (snd x)) (rank_entries (concat rows)))"
proof -
  have "\<forall>(l, ranks) \<in> set (collect_ranks rows). ranks \<noteq> []"
    by (auto simp: collect_ranks_eq set_first_seen label_ranks_present)
  then show ?thesis
    by (simp add: top_ranked_def average_ranks_Inr)
       (simp add: collect_ranks_eq rank_entries_def o_def)
qed

lemma map_snd_filter: "map snd (filter (\<lambda>p. P (snd p)) ys) = filter P (map snd ys)"
  by (induction ys) auto

lemma report_responses_filter:
  "mset (report_responses d s) = mset (filter (\<lambda>r. resp_survey r = s) (responses d))"
proof -
  have "map snd (filter (\<lambda>(pk, r). resp_survey r = s) (enumerate 0 (responses d)))
        = filter (\<lambda>r. resp_survey r = s) (responses d)"
    using map_snd_filter [of "\<lambda>r. resp_survey r = s" "enumerate 0 (responses d)"]
    by (simp add: split_def)
  then have "mset (map snd (filter (\<lambda>(pk, r). resp_survey r = s) (enumerate 0 (responses d))))
        = mset (filter (\<lambda>r. resp_survey r = s) (responses d))"
    by simp
  then show ?thesis
    unfolding report_responses_def responses_all_def
    by (metis mset_map mset_sort)
qed

lemma set_report_responses:
  "set (report_responses d s) = {r \<in> set (responses d). resp_survey r = s}"
  using report_responses_filter [of d s, THEN arg_cong, of set_mset] by simp

lemma view_report_value:
  "view_report d s =
     Inr \<lparr>response_count = length (report_responses d s),
          participant_count =
            length (filter (\<lambda>r. \<not> is_leader_self_assessment r) (report_responses d s)),
          overall_average =
            (let all_scores = concat (map (question_scores (report_responses d s))
                                        (answered_questions (report_responses d s)))
             in if all_scores \<noteq> [] then py_round2 (mean all_scores) else 0),
          question_stats =
            map (\<lambda>q. (q, expected_stat (report_responses d s) q))
              (answered_questions (report_responses d s)),
          top_strengths =
            take 10 (sort_reverse (\<lambda>x. fst (snd x))
                       (rank_entries (report_rankings d s (strength_rankings d)))),
          top_opportunities =
            take 10 (sort_reverse (\<lambda>x. fst (snd x))
                       (rank_entries (report_rankings d s (opportunity_rankings d)))),
          continue_responses = filter (\<lambda>t. t \<noteq> []) (map continue_doing (report_responses d s)),
          stop_responses = filter (\<lambda>t. t \<noteq> []) (map stop_doing (report_responses d s)),
          start_responses = filter (\<lambda>t. t \<noteq> []) (map start_doing (report_responses d s)),
          supervisors_count =
            length (filter (\<lambda>r. relationship r = ''supervisor'') (report_responses d s)),
          peers_count = length (filter (\<lambda>r. relationship r = ''peer'') (report_responses d s)),
          staff_count = length (filter (\<lambda>r. relationship r = ''teacher'') (report_responses d s)),
          students_count =
            length (filter (\<lambda>r. relationship r = ''student'') (report_responses d s)),
          community_count =
            length (filter (\<lambda>r. relationship r = ''parent'') (report_responses d s))\<rparr>"
proof -
  have stats: "question_stats_loop (map snd (responses_all d s)) [2..<56] =
      Inr (map (\<lambda>q. (q, expected_stat (report_responses d s) q))
             (answered_questions (report_responses d s)))"
    unfolding report_responses_def answered_questions_def
    by (rule question_stats_loop_Inr) (rule subset_refl)
  have scores: "concat (map (\<lambda>(q_num, st). qs_scores st)
        (map (\<lambda>q. (q, expected_stat rs q)) qs)) = concat (map (question_scores rs) qs)"
    for rs qs
    by (simp add: o_def expected_stat_def)
  have div: "xs \<noteq> [] \<Longrightarrow> py_truediv (sum_list xs) (int (length xs)) = Inr (mean xs)" for xs
    by (rule py_truediv_mean)
  have overall: "(if xs \<noteq> []
        then (case py_truediv (sum_list xs) (int (length xs)) of
                Inl e \<Rightarrow> Inl e | Inr a \<Rightarrow> Inr (py_round2 a))
        else Inr 0) = Inr (if xs \<noteq> [] then py_round2 (mean xs) else 0)"
    for xs and e :: py_error
    by (simp add: div)
  show ?thesis
    unfolding view_report_def Let_def
    apply (simp only: stats sum.case)
    apply (simp only: top_ranked_Inr sum.case)
    apply (simp only: scores overall sum.case)
    apply (simp only: report_responses_def [symmetric] report_rankings_def [symmetric])
    done
qed

lemma mean_const:
  assumes "xs \<noteq> []" and "\<forall>x \<in> set xs. x = c"
  shows "mean xs = to_double (of_int c)"
proof -
  from assms(2) have "sum_list xs = c * int (length xs)"
    by (induction xs) (simp_all add: algebra_simps)
  with assms(1) show ?thesis
    by (simp add: mean_def exact_mean_def)
qed

lemma py_round2_4: "py_round2 4 = 4"
  by code_simp

lemma score_meets: "calculate_likert_score ''meets'' = 4"
  by (simp add: calculate_likert_score_def likert_scores_def)

lemma map_of_graph:
  "map_of (map (\<lambda>q. (q, f q)) qs) q = (if q \<in> set qs then Some (f q) else None)"
  by (induction qs) auto

lemma sort_reverse_ranked: "ranked_by_mean rows (sort_reverse (\<lambda>x. fst (snd x)) (rank_entries rows))"
proof -
  let ?f = "\<lambda>x :: string \<times> rat \<times> nat. - fst (snd x)"
  let ?full = "sort_key ?f (rank_entries rows)"
  have "sorted (map ?f ?full)"
    by (rule sorted_sort_key)
  then have sorted: "sorted_wrt (\<lambda>x y. fst (snd x) \<ge> fst (snd y)) ?full"
    by (simp add: sorted_wrt_map)
  have stable: "filter (\<lambda>x. fst (snd x) = a) ?full = filter (\<lambda>x. fst (snd x) = a) (rank_entries rows)"
    for a
    using sort_key_stable [of ?f "- a" "rank_entries rows"] by simp
  show ?thesis
    unfolding ranked_by_mean_def sort_reverse_def
    using sorted stable by simp
qed

lemma sum_list_mset_filter:
  "distinct ps \<Longrightarrow>
   (\<Sum>p\<leftarrow>ps. mset (filter (\<lambda>k. g k = p) tbl)) = mset (filter (\<lambda>k. g k \<in> set ps) tbl)"
proof (induction ps)
  case Nil
  then show ?case by simp
next
  case (Cons p ps)
  have "mset (filter (\<lambda>k. g k \<in> set (p # ps)) tbl)
      = mset (filter (\<lambda>k. g k = p) tbl) + mset (filter (\<lambda>k. g k \<in> set ps) tbl)"
    using Cons.prems by (induction tbl) auto
  with Cons show ?case by simp
qed

lemma concat_single_block:
  assumes "distinct (map fst rows)" and "(pk, r) \<in> set rows"
    and "\<And>p' r'. p' \<noteq> pk \<Longrightarrow> f (p', r') = []"
  shows "concat (map f rows) = f (pk, r)"
  using assms(1,2)
proof (induction rows)
  case Nil
  then show ?case by simp
next
  case (Cons x rows)
  obtain p' r' where x: "x = (p', r')" by (cases x)
  show ?case
  proof (cases "x = (pk, r)")
    case True
    have "pk \<notin> fst ` set rows"
      using Cons.prems(1) True by simp
    then have "\<forall>y \<in> set rows. f y = []"
      using assms(3) by (metis image_eqI prod.collapse)
    then have "concat (map f rows) = []"
      by simp
    with True show ?thesis by simp
  next
    case False
    then have mem: "(pk, r) \<in> set rows"
      using Cons.prems(2) by simp
    have "p' \<noteq> pk"
      using Cons.prems(1) mem x by (auto simp: image_iff)
    then have "f x = []"
      using assms(3) x by simp
    moreover have "concat (map f rows) = f (pk, r)"
      using Cons.IH Cons.prems(1) mem by simp
    ultimately show ?thesis by simp
  qed
qed

lemma sorted_concat_blocks:
  assumes "\<And>xs. xs \<in> set xss \<Longrightarrow> sorted xs"
    and "sorted_wrt (\<lambda>xs ys. \<forall>x \<in> set xs. \<forall>y \<in> set ys. x \<le> y) xss"
  shows "sorted (concat xss)"
  using assms
proof (induction xss)
  case Nil
  then show ?case by simp
next
  case (Cons xs xss)
  then show ?case
    by (auto simp: sorted_append)
qed


lemma sorted_map_fst_key:
  fixes f :: "'a \<Rightarrow> 'b::linorder" and g :: "'a \<Rightarrow> 'c::linorder"
  assumes "sorted (map (\<lambda>x. (f x, g x)) ys)"
  shows "sorted (map f ys)"
proof -
  have "sorted_wrt (\<lambda>a b. (f a, g a) \<le> (f b, g b)) ys"
    using assms by (simp add: sorted_map)
  then have "sorted_wrt (\<lambda>a b. f a \<le> f b) ys"
    by (rule sorted_wrt_mono_rel [rotated]) (auto simp: less_eq_prod_def)
  then show ?thesis
    by (simp add: sorted_map)
qed

lemma sort_key_lex:
  fixes f :: "'a \<Rightarrow> 'b::linorder" and g :: "'a \<Rightarrow> 'c::linorder"
  assumes srt: "sorted (map g xs)" and dst: "distinct (map g xs)"
  shows "sort_key f xs = sort_key (\<lambda>x. (f x, g x)) xs"
proof (rule properties_for_sort_key)
  let ?ys = "sort_key (\<lambda>x. (f x, g x)) xs"
  show "mset ?ys = mset xs"
    by simp
  show "sorted (map f ?ys)"
    by (rule sorted_map_fst_key [where g = g]) (rule sorted_sort_key)
  fix k
  let ?P = "\<lambda>x. f k = f x"
  have inj: "inj_on g (set xs)" and dxs: "distinct xs"
    using dst by (simp_all add: distinct_map)
  have "sorted_wrt (\<lambda>a b. (f a, g a) \<le> (f b, g b)) (filter ?P ?ys)"
    using sorted_sort_key [of "\<lambda>x. (f x, g x)" xs]
    by (simp add: sorted_map sorted_wrt_filter)
  then have "sorted_wrt (\<lambda>a b. g a \<le> g b) (filter ?P ?ys)"
    by (rule sorted_wrt_mono_rel [rotated]) (auto simp: less_eq_prod_def)
  then have s1: "sorted (map g (filter ?P ?ys))"
    by (simp add: sorted_map)
  have d1: "distinct (map g (filter ?P ?ys))"
    using inj dxs by (simp add: distinct_map inj_on_def)
  have s2: "sorted (map g (filter ?P xs))"
    using srt by (rule sorted_filter)
  have d2: "distinct (map g (filter ?P xs))"
    using dst by (rule distinct_map_filter)
  have "inj_on g (set (filter ?P ?ys) \<union> set (filter ?P xs))"
    using inj by (auto simp: inj_on_def)
  then show "filter ?P ?ys = filter ?P xs"
    using s1 d1 s2 d2 by (rule map_sorted_distinct_set_unique) simp
qed

lemma responses_all_set:
  "(pk, r) \<in> set (responses_all d s) \<longleftrightarrow>
     pk < length (responses d) \<and> r = responses d ! pk \<and> resp_survey r = s"
  by (auto simp: responses_all_def in_set_enumerate_eq)

lemma responses_all_distinct: "distinct (map fst (responses_all d s))"
proof -
  have "distinct (map fst (filter (\<lambda>(pk, r). resp_survey r = s) (enumerate 0 (responses d))))"
    by (rule distinct_map_filter) simp
  then show ?thesis
    unfolding responses_all_def by (simp add: distinct_map)
qed

lemma responses_all_sorted:
  "sorted (map (\<lambda>row. (- submitted_at (snd row), fst row)) (responses_all d s))"
proof -
  let ?xs = "filter (\<lambda>(pk, r). resp_survey r = s) (enumerate 0 (responses d))"
  have "sorted (map fst ?xs)"
    by (rule sorted_filter) simp
  moreover have "distinct (map fst ?xs)"
    by (rule distinct_map_filter) simp
  ultimately have "sort_key (\<lambda>row. - submitted_at (snd row)) ?xs
      = sort_key (\<lambda>row. (- submitted_at (snd row), fst row)) ?xs"
    by (rule sort_key_lex)
  then have "responses_all d s = sort_key (\<lambda>row. (- submitted_at (snd row), fst row)) ?xs"
    unfolding responses_all_def case_prod_beta .
  then show ?thesis
    by (simp only: sorted_sort_key)
qed


lemma rankings_all_response: "k \<in> set (rankings_all tbl pk) \<Longrightarrow> rk_response k = pk"
  by (simp add: rankings_all_def)

lemma report_rankings_mset:
  "mset (report_rankings d s tbl) = mset (filter (of_survey d s) tbl)"
proof -
  let ?rows = "responses_all d s"
  have "mset (report_rankings d s tbl)
      = (\<Sum>p\<leftarrow>map fst ?rows. mset (filter (\<lambda>k. rk_response k = p) tbl))"
    by (simp add: report_rankings_def mset_concat rankings_all_def comp_def case_prod_beta)
  also have "\<dots> = mset (filter (\<lambda>k. rk_response k \<in> set (map fst ?rows)) tbl)"
    using responses_all_distinct by (rule sum_list_mset_filter)
  also have "(\<lambda>k. rk_response k \<in> set (map fst ?rows)) = of_survey d s"
  proof (rule ext)
    fix k :: ranking
    have "rk_response k \<in> set (map fst ?rows) \<longleftrightarrow> (\<exists>r. (rk_response k, r) \<in> set ?rows)"
      by (force simp: image_iff)
    also have "\<dots> \<longleftrightarrow> of_survey d s k"
      by (simp add: responses_all_set of_survey_def)
    finally show "rk_response k \<in> set (map fst ?rows) \<longleftrightarrow> of_survey d s k" .
  qed
  finally show ?thesis .
qed

lemma report_rankings_set:
  "k \<in> set (report_rankings d s tbl) \<longleftrightarrow> k \<in> set tbl \<and> of_survey d s k"
proof -
  have "set (report_rankings d s tbl) = set (filter (of_survey d s) tbl)"
    using report_rankings_mset [of d s tbl] by (metis set_mset_mset)
  then show ?thesis by simp
qed

lemma report_rankings_stable:
  assumes "k \<in> set (report_rankings d s tbl)"
  shows "filter (\<lambda>x. visit_key d k = visit_key d x) (report_rankings d s tbl)
       = filter (\<lambda>x. visit_key d k = visit_key d x) (filter (of_survey d s) tbl)"
proof -
  let ?pk = "rk_response k"
  let ?same = "\<lambda>x. visit_key d k = visit_key d x"
  let ?f = "\<lambda>row. filter ?same (rankings_all tbl (fst row))"
  have k: "of_survey d s k"
    using assms by (simp add: report_rankings_set)
  then have row: "(?pk, responses d ! ?pk) \<in> set (responses_all d s)"
    by (simp add: responses_all_set of_survey_def)
  have same: "?same x \<longleftrightarrow> rk_response x = ?pk \<and> rk_rank x = rk_rank k" for x
    by (auto simp: visit_key_def)
  have other: "?f (p', r') = []" if "p' \<noteq> ?pk" for p' r'
    using that by (auto simp: filter_empty_conv same dest: rankings_all_response)
  have "filter ?same (report_rankings d s tbl) = concat (map ?f (responses_all d s))"
    by (simp add: report_rankings_def filter_concat comp_def case_prod_beta)
  also have "\<dots> = ?f (?pk, responses d ! ?pk)"
    using responses_all_distinct row other by (rule concat_single_block)
  also have "\<dots> = filter (\<lambda>x. rk_rank x = rk_rank k) (rankings_all tbl ?pk)"
    by (auto simp: same dest: rankings_all_response intro: filter_cong)
  also have "\<dots> = filter (\<lambda>x. - rk_rank x = - rk_rank k)
                     (sort_key (\<lambda>x. - rk_rank x) (filter (\<lambda>x. rk_response x = ?pk) tbl))"
    by (simp add: rankings_all_def)
  also have "\<dots> = filter (\<lambda>x. - rk_rank x = - rk_rank k) (filter (\<lambda>x. rk_response x = ?pk) tbl)"
    by (rule sort_key_stable)
  also have "\<dots> = filter ?same (filter (of_survey d s) tbl)"
    using k by (auto simp: same of_survey_def intro: filter_cong)
  finally show ?thesis .
qed

lemma rankings_all_sorted:
  "sorted (map (visit_key d) (rankings_all tbl pk))"
proof -
  have "sorted (map (\<lambda>x. - rk_rank x) (rankings_all tbl pk))"
    unfolding rankings_all_def by (rule sorted_sort_key)
  then have "sorted_wrt (\<lambda>a b. - rk_rank a \<le> - rk_rank b) (rankings_all tbl pk)"
    by (simp add: sorted_map)
  then have "sorted_wrt (\<lambda>a b. visit_key d a \<le> visit_key d b) (rankings_all tbl pk)"
    by (rule sorted_wrt_mono_rel [rotated])
       (auto simp: visit_key_def less_eq_prod_def dest!: rankings_all_response)
  then show ?thesis
    by (simp add: sorted_map)
qed

lemma report_rankings_sorted:
  "sorted (map (visit_key d) (report_rankings d s tbl))"
proof -
  let ?rows = "responses_all d s"
  let ?key = "\<lambda>row. (- submitted_at (snd row), fst row)"
  let ?block = "\<lambda>row. map (visit_key d) (rankings_all tbl (fst row))"
  have "sorted (map ?key ?rows)"
    by (rule responses_all_sorted)
  moreover have "distinct (map ?key ?rows)"
    using responses_all_distinct [of d s] by (auto simp: distinct_map inj_on_def)
  ultimately have "sorted_wrt (<) (map ?key ?rows)"
    by (simp add: strict_sorted_iff)
  then have "sorted_wrt (\<lambda>a b. ?key a < ?key b) ?rows"
    by (simp add: sorted_wrt_map)
  then have "sorted_wrt (\<lambda>a b. \<forall>x \<in> set (?block a). \<forall>y \<in> set (?block b). x \<le> y) ?rows"
  proof (rule sorted_wrt_mono_rel [rotated])
    fix a b
    assume a: "a \<in> set ?rows" and b: "b \<in> set ?rows" and less: "?key a < ?key b"
    have sa: "snd a = responses d ! fst a"
      using a responses_all_set [of "fst a" "snd a" d s] by simp
    have sb: "snd b = responses d ! fst b"
      using b responses_all_set [of "fst b" "snd b" d s] by simp
    show "\<forall>x \<in> set (?block a). \<forall>y \<in> set (?block b). x \<le> y"
      using less sa sb
      by (auto simp: visit_key_def less_eq_prod_def less_prod_def dest!: rankings_all_response)
  qed
  then have "sorted_wrt (\<lambda>xs ys. \<forall>x \<in> set xs. \<forall>y \<in> set ys. x \<le> y) (map ?block ?rows)"
    by (simp add: sorted_wrt_map)
  moreover have "sorted xs" if "xs \<in> set (map ?block ?rows)" for xs
    using that rankings_all_sorted by auto
  ultimately have "sorted (concat (map ?block ?rows))"
    by (rule sorted_concat_blocks [rotated])
  moreover have "map (visit_key d) (report_rankings d s tbl) = concat (map ?block ?rows)"
    by (simp add: report_rankings_def map_concat comp_def case_prod_beta)
  ultimately show ?thesis
    by simp
qed

lemma report_rankings_eq: "report_rankings d s tbl = survey_rankings d s tbl"
  unfolding survey_rankings_def
  by (rule properties_for_sort_key [symmetric])
     (rule report_rankings_mset, erule report_rankings_stable, rule report_rankings_sorted)

text \<open>
  Claim C2, as the code computes it. For the strengths and for the opportunities, the
  report never fails and its list is the first 10 entries (all of them when there are
  fewer) of a list \<open>full\<close> that holds, for each distinct label among the rows of the
  ranking table that belong to the survey's responses, the label with the mean of all ranks
  given to it and their number. The mean is the one \<open>sum(ranks) / len(ranks)\<close> returns,
  the double nearest to the arithmetic mean. \<open>full\<close> is in descending order of that
  value, and labels with the same value stay in the order in which the report first met
  them.
\<close>

theorem top_ranked_by_mean:
  "\<exists>ctx full_s full_o.
     view_report d s = Inr ctx \<and>
     top_strengths ctx = take 10 full_s \<and>
     ranked_by_mean (survey_rankings d s (strength_rankings d)) full_s \<and>
     top_opportunities ctx = take 10 full_o \<and>
     ranked_by_mean (survey_rankings d s (opportunity_rankings d)) full_o \<and>
     length (top_strengths ctx) \<le> 10 \<and> length (top_opportunities ctx) \<le> 10"
proof -
  define full_s where
    "full_s = sort_reverse (\<lambda>x. fst (snd x))
                (rank_entries (survey_rankings d s (strength_rankings d)))"
  define full_o where
    "full_o = sort_reverse (\<lambda>x. fst (snd x))
                (rank_entries (survey_rankings d s (opportunity_rankings d)))"
  obtain ctx where ctx: "view_report d s = Inr ctx"
    and s: "top_strengths ctx = take 10 full_s"
    and o: "top_opportunities ctx = take 10 full_o"
    unfolding full_s_def full_o_def by (simp add: view_report_value report_rankings_eq)
  have "ranked_by_mean (survey_rankings d s (strength_rankings d)) full_s"
    unfolding full_s_def by (rule sort_reverse_ranked)
  moreover have "ranked_by_mean (survey_rankings d s (opportunity_rankings d)) full_o"
    unfolding full_o_def by (rule sort_reverse_ranked)
  moreover have "length (top_strengths ctx) \<le> 10" "length (top_opportunities ctx) \<le> 10"
    by (simp_all add: s o)
  ultimately show ?thesis
    using ctx s o by blast
qed

text \<open>
  Claim C2 as stated, with the arithmetic mean itself, fails for ranks that a double does
  not tell apart: label \<open>b\<close> has the larger arithmetic mean, and the report lists it
  after \<open>a\<close>, with the same mean \<open>2\<^sup>5\<^sup>3\<close>.
\<close>

theorem rounded_means_tie_counterexample:
  "map_sum id top_strengths (view_report float_db 0)
     = Inr [(''a'', 9007199254740992, 1), (''b'', 9007199254740992, 1)] \<and>
   exact_mean (label_ranks (survey_rankings float_db 0 (strength_rankings float_db)) ''a'')
     = 9007199254740992 \<and>
   exact_mean (label_ranks (survey_rankings float_db 0 (strength_rankings float_db)) ''b'')
     = 9007199254740993"
  by code_simp

lemma question_scores_all_meets:
  assumes "\<forall>r \<in> set rs. q_response r q = ''meets''"
  shows "question_scores rs q = map (\<lambda>r. 4) rs"
proof -
  have "filter (\<lambda>r. q_response r q \<noteq> []) rs = rs"
    using assms by (simp add: filter_id_conv)
  then show ?thesis
    using assms by (simp add: question_scores_def score_meets cong: map_cong)
qed

lemma expected_stat_average: "qs_average (expected_stat rs q) = py_round2 (mean (question_scores rs q))"
  by (simp add: expected_stat_def)

text \<open>
  Claim C1, with the condition the code needs. For a survey that has at least one response
  and whose responses all answer each of the questions 2..55 with \<open>meets\<close>, the report has
  an entry for every question, with average 4, and the overall average is 4.
\<close>

theorem all_meets_average:
  assumes some: "\<exists>r \<in> set (responses d). resp_survey r = s"
    and meets: "\<forall>r \<in> set (responses d). resp_survey r = s \<longrightarrow>
                  (\<forall>q \<in> {2..<56}. q_response r q = ''meets'')"
  shows "\<exists>ctx. view_report d s = Inr ctx \<and> overall_average ctx = 4 \<and>
           (\<forall>q \<in> {2..<56}. \<exists>st. map_of (question_stats ctx) q = Some st \<and> qs_average st = 4)"
proof -
  let ?rs = "report_responses d s"
  have nonempty: "?rs \<noteq> []"
    using some set_report_responses [of d s] by auto
  have scores: "question_scores ?rs q = map (\<lambda>r. 4) ?rs" if "q \<in> {2..<56}" for q
    using meets that set_report_responses [of d s]
    by (intro question_scores_all_meets) auto
  have mean4: "mean (question_scores ?rs q) = 4" if "q \<in> {2..<56}" for q
  proof -
    have "question_scores ?rs q \<noteq> []"
      using scores [OF that] nonempty by simp
    moreover have "\<forall>x \<in> set (question_scores ?rs q). x = 4"
      using scores [OF that] by simp
    ultimately have "mean (question_scores ?rs q) = to_double (of_int 4)"
      by (rule mean_const)
    then show ?thesis by (simp add: to_double_4)
  qed
  have answered: "answered_questions ?rs = [2..<56]"
    unfolding answered_questions_def filter_id_conv
    using nonempty scores by (simp del: upt_rec_numeral)
  let ?all = "concat (map (question_scores ?rs) [2..<56])"
  have "question_scores ?rs 2 \<noteq> []"
    using scores [of 2] nonempty by simp
  moreover have "question_scores ?rs 2 \<in> set (map (question_scores ?rs) [2..<56])"
    by (simp del: upt_rec_numeral)
  ultimately have all_nonempty: "?all \<noteq> []"
    by (metis concat_eq_Nil_conv)
  have "\<forall>x \<in> set ?all. x = 4"
    using scores by (auto simp del: upt_rec_numeral)
  with all_nonempty have "mean ?all = to_double (of_int 4)"
    by (rule mean_const)
  then have overall: "mean ?all = 4"
    by (simp add: to_double_4)
  obtain ctx where ctx: "view_report d s = Inr ctx"
    and avg: "overall_average ctx = py_round2 (mean ?all)"
    and stats: "question_stats ctx = map (\<lambda>q. (q, expected_stat ?rs q)) [2..<56]"
    using all_nonempty by (simp add: view_report_value answered Let_def del: upt_rec_numeral)
  have "\<exists>st. map_of (question_stats ctx) q = Some st \<and> qs_average st = 4"
    if "q \<in> {2..<56}" for q
    using that mean4 [OF that]
    by (simp add: stats map_of_graph expected_stat_average py_round2_4 del: upt_rec_numeral)
  with ctx avg overall show ?thesis
    by (auto simp: py_round2_4)
qed

text \<open>
  Claim C1 as stated covers the survey without responses, all of whose (no) responses
  answer \<open>meets\<close>. There the report has no per-question entry and the overall average is
  the \<open>0\<close> of \<^verbatim>\<open>... if all_scores else 0\<close>, not 4.
\<close>

theorem empty_survey_average_counterexample:
  "view_report empty_db 0 =
     Inr \<lparr>response_count = 0, participant_count = 0, overall_average = 0,
          question_stats = [], top_strengths = [], top_opportunities = [],
          continue_responses = [], stop_responses = [], start_responses = [],
          supervisors_count = 0, peers_count = 0, staff_count = 0,
          students_count = 0, community_count = 0\<rparr>"
proof -
  have rs: "report_responses empty_db 0 = []"
    by (simp add: report_responses_def responses_all_def empty_db_def)
  have rk: "report_rankings empty_db 0 tbl = []" for tbl
    by (simp add: report_rankings_def responses_all_def empty_db_def)
  have "answered_questions [] = []"
    by (simp add: answered_questions_def question_scores_def del: upt_rec_numeral)
  then show ?thesis
    by (simp add: view_report_value rs rk rank_entries_def first_seen_def sort_reverse_def)
qed

text \<open>
  Claim C4. The aggregation never raises (so no division by zero): it always returns a
  context. For a survey without responses \<open>question_stats\<close> has no entry at all. And in
  every entry of \<open>question_stats\<close>, a relationship category that no scored response of
  the survey belongs to is reported as \<open>None\<close>, not as a number.
\<close>

theorem statistics_absent:
  "(\<exists>ctx. view_report d s = Inr ctx) \<and>
   ((\<forall>r \<in> set (responses d). resp_survey r \<noteq> s) \<longrightarrow>
      (\<exists>ctx. view_report d s = Inr ctx \<and> question_stats ctx = [])) \<and>
   (\<forall>ctx q st rel.
      view_report d s = Inr ctx \<and> map_of (question_stats ctx) q = Some st \<and>
      rel \<in> set (map fst scores_by_relationship_init) \<and>
      \<not> (\<exists>r \<in> set (responses d).
            resp_survey r = s \<and> q_response r q \<noteq> [] \<and> relationship_group r = rel)
      \<longrightarrow> map_of (qs_by_relationship st) rel = Some None)"
proof (intro conjI allI impI)
  show "\<exists>ctx. view_report d s = Inr ctx"
    by (simp add: view_report_value)
next
  assume none: "\<forall>r \<in> set (responses d). resp_survey r \<noteq> s"
  then have "set (report_responses d s) = {}"
    using set_report_responses [of d s] by auto
  then have "report_responses d s = []"
    by simp
  moreover have "answered_questions [] = []"
    by (simp add: answered_questions_def question_scores_def del: upt_rec_numeral)
  ultimately show "\<exists>ctx. view_report d s = Inr ctx \<and> question_stats ctx = []"
    by (simp add: view_report_value)
next
  fix ctx q st rel
  let ?rs = "report_responses d s"
  assume a: "view_report d s = Inr ctx \<and> map_of (question_stats ctx) q = Some st \<and>
      rel \<in> set (map fst scores_by_relationship_init) \<and>
      \<not> (\<exists>r \<in> set (responses d).
            resp_survey r = s \<and> q_response r q \<noteq> [] \<and> relationship_group r = rel)"
  then have "question_stats ctx = map (\<lambda>q. (q, expected_stat ?rs q)) (answered_questions ?rs)"
    by (auto simp: view_report_value)
  with a have st: "st = expected_stat ?rs q"
    by (auto simp: map_of_graph split: if_splits)
  have "filter (\<lambda>r. q_response r q \<noteq> []) (filter (\<lambda>r. relationship_group r = rel) ?rs) = []"
    using a set_report_responses [of d s] by (auto simp: filter_empty_conv)
  then have "group_scores ?rs q rel = []"
    by (simp add: group_scores_def question_scores_def)
  then have "relationship_average ?rs q rel = None"
    by (simp add: relationship_average_def)
  moreover have "map_of (qs_by_relationship st) rel =
      (if rel \<in> set (map fst scores_by_relationship_init)
       then Some (relationship_average ?rs q rel) else None)"
    unfolding st expected_stat_def question_stat.select_convs by (rule map_of_graph)
  ultimately show "map_of (qs_by_relationship st) rel = Some None"
    using a by simp
qed

lemma meets_db_responses: "report_responses meets_db 0 = [meets_response]"
  by (simp add: report_responses_def responses_all_def meets_db_def meets_response_def)

lemma meets_db_stat:
  "\<exists>ctx st. view_report meets_db 0 = Inr ctx \<and> map_of (question_stats ctx) 2 = Some st"
proof -
  have "question_scores [meets_response] 2 \<noteq> []"
    by (simp add: question_scores_def meets_response_def)
  then have "2 \<in> set (answered_questions (report_responses meets_db 0))"
    unfolding meets_db_responses answered_questions_def by (simp del: upt_rec_numeral)
  then show ?thesis
    by (simp add: view_report_value map_of_graph)
qed

theorem statistics_absent_witness:
  "(\<exists>ctx. view_report meets_db 1 = Inr ctx \<and> question_stats ctx = []) \<and>
   (\<exists>ctx st. view_report meets_db 0 = Inr ctx \<and> map_of (question_stats ctx) 2 = Some st \<and>
      map_of (qs_by_relationship st) ''student'' = Some None)"
proof
  have "\<forall>r \<in> set (responses meets_db). resp_survey r \<noteq> 1"
    by (simp add: meets_db_def meets_response_def)
  with statistics_absent [of meets_db 1]
  show "\<exists>ctx. view_report meets_db 1 = Inr ctx \<and> question_stats ctx = []"
    by (elim conjE) (erule mp)
next
  obtain ctx st where ctx: "view_report meets_db 0 = Inr ctx"
    and st: "map_of (question_stats ctx) 2 = Some st"
    using meets_db_stat by blast
  have key: "''student'' \<in> set (map fst scores_by_relationship_init)"
    by (simp add: scores_by_relationship_init_def)
  have none: "\<not> (\<exists>r \<in> set (responses meets_db).
      resp_survey r = 0 \<and> q_response r 2 \<noteq> [] \<and> relationship_group r = ''student'')"
    by (simp add: meets_db_def meets_response_def relationship_group_def)
  from statistics_absent [of meets_db 0]
  have "\<forall>ctx q st rel.
      view_report meets_db 0 = Inr ctx \<and> map_of (question_stats ctx) q = Some st \<and>
      rel \<in> set (map fst scores_by_relationship_init) \<and>
      \<not> (\<exists>r \<in> set (responses meets_db).
            resp_survey r = 0 \<and> q_response r q \<noteq> [] \<and> relationship_group r = rel)
      \<longrightarrow> map_of (qs_by_relationship st) rel = Some None"
    by (elim conjE)
  with ctx st key none have "map_of (qs_by_relationship st) ''student'' = Some None"
    by blast
  with ctx st show "\<exists>ctx st. view_report meets_db 0 = Inr ctx \<and>
      map_of (question_stats ctx) 2 = Some st \<and>
      map_of (qs_by_relationship st) ''student'' = Some None"
    by blast
qed

theorem all_meets_average_witness:
  "(\<exists>r \<in> set (responses meets_db). resp_survey r = 0) \<and>
   (\<exists>ctx. view_report meets_db 0 = Inr ctx \<and> overall_average ctx = 4 \<and>
      (\<exists>st. map_of (question_stats ctx) 2 = Some st \<and> qs_average st = 4))"
proof -
  have some: "\<exists>r \<in> set (responses meets_db). resp_survey r = 0"
    by (simp add: meets_db_def meets_response_def)
  have meets: "\<forall>r \<in> set (responses meets_db). resp_survey r = 0 \<longrightarrow>
      (\<forall>q \<in> {2..<56}. q_response r q = ''meets'')"
    by (simp add: meets_db_def meets_response_def)
  obtain ctx where ctx: "view_report meets_db 0 = Inr ctx" "overall_average ctx = 4"
    and all: "\<forall>q \<in> {2..<56}. \<exists>st. map_of (question_stats ctx) q = Some st \<and> qs_average st = 4"
    using all_meets_average [OF some meets] by blast
  have "(2::nat) \<in> {2..<56}" by simp
  with all have "\<exists>st. map_of (question_stats ctx) 2 = Some st \<and> qs_average st = 4"
    by (rule bspec)
  with some ctx show ?thesis by blast
qed

subsection \<open>The invitation form\<close>

lemma py_split_unfold:
  "py_split sep s =
     takeWhile (\<lambda>c. c \<noteq> sep) s #
     (case dropWhile (\<lambda>c. c \<noteq> sep) s of [] \<Rightarrow> [] | x # r \<Rightarrow> py_split sep r)"
  by (induction s) (auto split: list.splits)

lemma py_split_second:
  assumes "sep \<in> set s"
  shows "\<exists>rest. py_split sep s =
           takeWhile (\<lambda>c. c \<noteq> sep) s #
           takeWhile (\<lambda>c. c \<noteq> sep) (tl (dropWhile (\<lambda>c. c \<noteq> sep) s)) # rest"
proof -
  from assms obtain x r where d: "dropWhile (\<lambda>c. c \<noteq> sep) s = x # r"
    by (cases "dropWhile (\<lambda>c. c \<noteq> sep) s") (auto simp: dropWhile_eq_Nil_conv)
  have "py_split sep s = takeWhile (\<lambda>c. c \<noteq> sep) s # py_split sep r"
    using py_split_unfold [of sep s] d by simp
  moreover obtain rest where "py_split sep r = takeWhile (\<lambda>c. c \<noteq> sep) r # rest"
    using py_split_unfold [of sep r] by blast
  ultimately show ?thesis
    using d by simp
qed

lemma clean_emails_loop_step:
  assumes "strip line \<noteq> []"
  shows "clean_emails_loop (line # rest) emails =
           (if email_check (strip line)
            then clean_emails_loop rest (emails @ [lower (strip line)])
            else Inl (ValidationError (''Invalid email address: '' @ strip line)))"
proof (cases "CHR ''@'' \<in> set (strip line)")
  case False
  with assms show ?thesis
    by (simp add: email_check_def Let_def)
next
  case True
  then obtain more where
    "py_split CHR ''@'' (strip line) =
       takeWhile (\<lambda>c. c \<noteq> CHR ''@'') (strip line) # after_first_at (strip line) # more"
    unfolding after_first_at_def using py_split_second by blast
  with assms True show ?thesis
    by (simp add: email_check_def Let_def)
qed

lemma clean_emails_loop_eq:
  "clean_emails_loop lines emails =
     (case find (\<lambda>e. \<not> email_check e) (filter (\<lambda>e. e \<noteq> []) (map strip lines)) of
        Some e \<Rightarrow> Inl (ValidationError (''Invalid email address: '' @ e))
      | None \<Rightarrow> Inr (emails @ map lower (filter (\<lambda>e. e \<noteq> []) (map strip lines))))"
proof (induction lines arbitrary: emails)
  case Nil
  show ?case by simp
next
  case (Cons line rest)
  show ?case
  proof (cases "strip line = []")
    case True
    then show ?thesis
      using Cons.IH [of emails] by (simp add: Let_def split: option.splits)
  next
    case False
    then show ?thesis
      using Cons.IH [of "emails @ [lower (strip line)]"]
      by (simp add: clean_emails_loop_step del: clean_emails_loop.simps split: option.splits)
  qed
qed

lemma clean_emails_eq:
  "clean_emails emails_text =
     (case find (\<lambda>e. \<not> email_check e) (email_lines emails_text) of
        Some e \<Rightarrow> Inl (ValidationError (''Invalid email address: '' @ e))
      | None \<Rightarrow>
          if email_lines emails_text = []
          then Inl (ValidationError ''Please enter at least one email address'')
          else Inr (map lower (email_lines emails_text)))"
  unfolding clean_emails_def clean_emails_loop_eq email_lines_def
  by (simp split: option.splits)

lemma email_check_at_then_dot: "email_check e \<Longrightarrow> at_then_dot e"
proof -
  assume "email_check e"
  then have "CHR ''.'' \<in> set (tl (dropWhile (\<lambda>c. c \<noteq> CHR ''@'') e))"
    unfolding email_check_def after_first_at_def by (meson set_takeWhileD)
  then show ?thesis
    unfolding at_then_dot_def
    by (cases "dropWhile (\<lambda>c. c \<noteq> CHR ''@'') e") simp_all
qed

lemma lower_char_idem: "lower_char (lower_char c) = lower_char c"
  by (auto simp: lower_char_def Let_def)

lemma lower_idem: "lower (lower s) = lower s"
  by (simp add: lower_def lower_char_idem)

lemma is_space_lower_char: "is_space (lower_char c) = is_space c"
  by (auto simp: lower_char_def is_space_def Let_def)

lemma strip_idem: "strip (strip s) = strip s"
proof -
  define t where "t = dropWhile is_space s"
  define u where "u = rev (dropWhile is_space (rev t))"
  have u: "strip s = u"
    by (simp add: strip_def t_def u_def)
  have t_split: "t = u @ rev (takeWhile is_space (rev t))"
    unfolding u_def by (metis rev_append rev_rev_ident takeWhile_dropWhile_id)
  have front: "dropWhile is_space u = u"
  proof (cases "u = []")
    case True
    then show ?thesis by simp
  next
    case False
    with t_split have "hd u = hd t" and "t \<noteq> []"
      by (metis hd_append2, metis append_is_Nil_conv)
    moreover have "\<not> is_space (hd t)" if "t \<noteq> []"
      using that unfolding t_def by (rule hd_dropWhile)
    ultimately show ?thesis
      by (simp add: dropWhile_eq_self_iff)
  qed
  have rear: "dropWhile is_space (rev u) = rev u"
    by (simp add: u_def)
  show ?thesis
    unfolding u by (simp add: strip_def front rear)
qed

lemma strip_lower: "strip (lower s) = lower (strip s)"
proof -
  have comp: "is_space \<circ> lower_char = is_space"
    by (rule ext) (simp add: is_space_lower_char)
  have dw: "dropWhile is_space (map lower_char xs) = map lower_char (dropWhile is_space xs)"
    for xs
    by (simp add: dropWhile_map comp)
  show ?thesis
    by (simp only: strip_def lower_def dw rev_map)
qed

lemma email_lines_normal:
  assumes "e \<in> set (map lower (email_lines emails_text))"
  shows "lower e = e \<and> strip e = e \<and> e \<noteq> []"
proof -
  from assms obtain l where e: "e = lower (strip l)" and "strip l \<noteq> []"
    by (auto simp: email_lines_def)
  then show ?thesis
    by (simp add: lower_idem strip_lower strip_idem) (simp add: lower_def)
qed

lemma set_strip: "set (strip s) \<subseteq> set s"
proof -
  have "set (strip s) = set (dropWhile is_space (rev (dropWhile is_space s)))"
    by (simp add: strip_def)
  also have "\<dots> \<subseteq> set (rev (dropWhile is_space s))"
    by (rule set_dropWhileD [THEN subsetI])
  also have "\<dots> \<subseteq> set s"
    by (auto dest: set_dropWhileD)
  finally show ?thesis .
qed

lemma email_lines_Nil: "email_lines [] = []"
  by (simp add: email_lines_def strip_def)

lemma InvitationForm_clean_first_invalid:
  assumes "post_emails p = Some raw" and "CHR 0x00 \<notin> set raw"
    and "find (\<lambda>e. \<not> email_check e) (email_lines (strip raw)) = Some e"
  shows "\<exists>es. InvitationForm_clean p = Errors es \<and>
           filter (\<lambda>x. fst x = F_emails) es
             = [(F_emails, Message (''Invalid email address: '' @ e))]"
proof -
  from assms(3) have "email_lines (strip raw) \<noteq> []"
    by auto
  then have ne: "strip raw \<noteq> []"
    using email_lines_Nil by metis
  from assms(2) have "CHR 0x00 \<notin> set (strip raw)"
    using set_strip by blast
  with ne assms(1) have "char_field_clean True (post_emails p) = Inr (strip raw)"
    by (simp add: char_field_clean_def Let_def)
  moreover have "clean_emails (strip raw)
      = Inl (ValidationError (''Invalid email address: '' @ e))"
    using assms(3) by (simp add: clean_emails_eq)
  ultimately show ?thesis
    by (cases "post_expires_at p") (simp_all add: InvitationForm_clean_def expires_at_errors_def)
qed

lemma InvitationForm_clean_null:
  assumes "post_emails p = Some raw" and "CHR 0x00 \<in> set (strip raw)"
  shows "\<exists>es. InvitationForm_clean p = Errors es \<and>
           filter (\<lambda>x. fst x = F_emails) es = [(F_emails, NullCharacters)]"
proof -
  from assms have "char_field_clean True (post_emails p) = Inl NullCharacters"
    by (auto simp: char_field_clean_def Let_def)
  then show ?thesis
    by (cases "post_expires_at p") (simp_all add: InvitationForm_clean_def expires_at_errors_def)
qed

lemma InvitationForm_clean_valid:
  assumes "InvitationForm_clean p = Cleaned (emails, t)"
  shows "\<exists>raw. post_emails p = Some raw \<and> emails = map lower (email_lines (strip raw))"
proof -
  from assms obtain cleaned where cleaned: "char_field_clean True (post_emails p) = Inr cleaned"
    and c: "clean_emails cleaned = Inr emails"
    by (auto simp: InvitationForm_clean_def
        split: sum.splits clean_error.splits date_input.splits)
  from cleaned obtain raw where raw: "post_emails p = Some raw" and "cleaned = strip raw"
    by (cases "post_emails p") (auto simp: char_field_clean_def Let_def split: if_splits)
  with c have "emails = map lower (email_lines (strip raw))"
    by (auto simp: clean_emails_eq split: option.splits if_splits)
  with raw show ?thesis by blast
qed

text \<open>
  Claim C8, as the code has it. \<open>clean_emails\<close> looks at the stripped, non-blank lines
  only. It rejects the text with the error \<open>Invalid email address: e\<close> where \<open>e\<close> is
  the first such line that has no \<open>@\<close> or no \<open>.\<close> between its first \<open>@\<close> and its
  next \<open>@\<close> (or the end); without such a line it returns the lowercased lines (and
  rejects a text without any address). An accepted line does have an \<open>@\<close> with a
  \<open>.\<close> after it. For a submitted text without a null character, \<open>InvitationForm\<close>
  is then invalid and the only error of the field \<open>emails\<close> is the one naming that first
  failing line; a text with a null character is rejected by the field itself, before
  \<open>clean_emails\<close> runs.
\<close>

theorem clean_emails_accepts:
  "clean_emails emails_text =
     (case find (\<lambda>e. \<not> email_check e) (email_lines emails_text) of
        Some e \<Rightarrow> Inl (ValidationError (''Invalid email address: '' @ e))
      | None \<Rightarrow>
          if email_lines emails_text = []
          then Inl (ValidationError ''Please enter at least one email address'')
          else Inr (map lower (email_lines emails_text))) \<and>
   (email_check e \<longrightarrow> at_then_dot e) \<and>
   (post_emails p = Some raw \<and> CHR 0x00 \<notin> set raw \<and>
    find (\<lambda>e. \<not> email_check e) (email_lines (strip raw)) = Some bad \<longrightarrow>
      (\<exists>es. InvitationForm_clean p = Errors es \<and>
         filter (\<lambda>x. fst x = F_emails) es
           = [(F_emails, Message (''Invalid email address: '' @ bad))])) \<and>
   (post_emails p = Some raw \<and> CHR 0x00 \<in> set (strip raw) \<longrightarrow>
      (\<exists>es. InvitationForm_clean p = Errors es \<and>
         filter (\<lambda>x. fst x = F_emails) es = [(F_emails, NullCharacters)]))"
proof (intro conjI impI)
  show "clean_emails emails_text =
     (case find (\<lambda>e. \<not> email_check e) (email_lines emails_text) of
        Some e \<Rightarrow> Inl (ValidationError (''Invalid email address: '' @ e))
      | None \<Rightarrow>
          if email_lines emails_text = []
          then Inl (ValidationError ''Please enter at least one email address'')
          else Inr (map lower (email_lines emails_text)))"
    by (rule clean_emails_eq)
next
  assume "email_check e"
  then show "at_then_dot e" by (rule email_check_at_then_dot)
next
  assume "post_emails p = Some raw \<and> CHR 0x00 \<notin> set raw \<and>
    find (\<lambda>e. \<not> email_check e) (email_lines (strip raw)) = Some bad"
  then show "\<exists>es. InvitationForm_clean p = Errors es \<and>
         filter (\<lambda>x. fst x = F_emails) es
           = [(F_emails, Message (''Invalid email address: '' @ bad))]"
    using InvitationForm_clean_first_invalid by blast
next
  assume "post_emails p = Some raw \<and> CHR 0x00 \<in> set (strip raw)"
  then show "\<exists>es. InvitationForm_clean p = Errors es \<and>
         filter (\<lambda>x. fst x = F_emails) es = [(F_emails, NullCharacters)]"
    using InvitationForm_clean_null by blast
qed

text \<open>
  Claim C8 as stated fails from right to left: \<open>a@b@c.d\<close> has an \<open>@\<close> and a \<open>.\<close>
  after it, and is rejected, because \<open>email.split('@')[1]\<close> is \<open>b\<close>.
\<close>

theorem multiple_at_counterexample:
  "at_then_dot ''a@b@c.d'' \<and>
   clean_emails ''a@b@c.d'' = Inl (ValidationError ''Invalid email address: a@b@c.d'')"
  by code_simp

lemma form_created_append:
  assumes "form_created d s"
    and "spk = s \<longrightarrow> lower email = email \<and>
           \<not> (\<exists>iv \<in> set (invitations d). inv_survey iv = spk \<and> inv_email iv = email)"
  shows "form_created
           (d\<lparr>invitations := invitations d @
                 [\<lparr>inv_survey = spk, inv_email = email, inv_token = token,
                   expires_at = expires, used = False, used_at = None\<rparr>]\<rparr>) s"
  using assms by (auto simp: form_created_def)

lemma send_invitations_form_created:
  assumes "\<forall>e \<in> set emails. lower e = e" and "form_created d s"
  shows "form_created (fst (snd (send_invitations gen mail spk expires emails d n failed))) s"
  using assms
proof (induction emails arbitrary: d n failed)
  case Nil
  then show ?case by simp
next
  case (Cons email rest)
  then have rest: "\<forall>e \<in> set rest. lower e = e" and email: "lower email = email"
    by simp_all
  show ?case
  proof (cases "\<exists>iv \<in> set (invitations d). inv_survey iv = spk \<and> inv_email iv = email")
    case True
    then show ?thesis
      using Cons.IH [OF rest Cons.prems(2)] by simp
  next
    case False
    let ?iv = "\<lparr>inv_survey = spk, inv_email = email, inv_token = gen (length (invitations d)),
                 expires_at = expires, used = False, used_at = None\<rparr>"
    let ?d = "d\<lparr>invitations := invitations d @ [?iv]\<rparr>"
    have "form_created ?d s"
      using Cons.prems(2) False email by (intro form_created_append) auto
    then have step: "form_created (fst (snd (send_invitations gen mail spk expires rest ?d n' failed'))) s"
      for n' failed'
      by (rule Cons.IH [OF rest])
    show ?thesis
      using False Cons.prems(2) step by (simp add: Let_def)
  qed
qed

lemma leader_dashboard_view_form_created:
  assumes "leader_dashboard_view gen mail d token req = (r, d')" and "form_created d s"
  shows "form_created d' s"
proof -
  have clean: "\<forall>e \<in> set emails. lower e = e" if "InvitationForm_clean p = Cleaned (emails, t)"
    for p emails t
    using InvitationForm_clean_valid [OF that] email_lines_normal by blast
  have loop: "form_created d'' s"
    if "InvitationForm_clean p = Cleaned (emails, t)"
      and "send_invitations gen mail spk t emails d 0 [] = (e, d'', c, f)"
    for p emails t spk e d'' c f
    using send_invitations_form_created [OF clean [OF that(1)] assms(2), of gen mail spk t 0 "[]"]
      that(2) by simp
  from assms show ?thesis
    unfolding leader_dashboard_view_def
    by (auto split: option.splits prod.splits if_splits request.splits form_result.splits
        intro: loop)
qed

lemma form_created_case_insensitive:
  assumes "form_created d s"
  shows "distinct (map (\<lambda>iv. lower (inv_email iv)) (filter (\<lambda>iv. inv_survey iv = s) (invitations d)))"
proof -
  have eq: "map (\<lambda>iv. lower (inv_email iv)) (filter (\<lambda>iv. inv_survey iv = s) (invitations d))
      = map inv_email (filter (\<lambda>iv. inv_survey iv = s) (invitations d))"
    using assms by (intro map_cong) (auto simp: form_created_def list_all_iff)
  from assms have "distinct (map inv_email (filter (\<lambda>iv. inv_survey iv = s) (invitations d)))"
    unfolding form_created_def by (rule conjunct2)
  then show ?thesis
    unfolding eq .
qed

lemma existing_emails_append:
  "existing_emails (d\<lparr>invitations := invitations d @ [iv]\<rparr>) s
     = (if inv_survey iv = s then insert (inv_email iv) (existing_emails d s)
        else existing_emails d s)"
  by (auto simp: existing_emails_def)

lemma existing_emails_mem:
  "email \<in> existing_emails d s \<longleftrightarrow>
     (\<exists>iv \<in> set (invitations d). inv_survey iv = s \<and> inv_email iv = email)"
  by (auto simp: existing_emails_def)

lemma send_invitations_rows:
  assumes "send_invitations gen mail spk t emails d n failed = (e, d', n', failed')"
  shows "\<exists>new. invitations d' = invitations d @ new \<and>
           distinct (map inv_email new) \<and>
           set (map inv_email new) \<subseteq> set emails - existing_emails d spk \<and>
           list_all (\<lambda>iv. inv_survey iv = spk \<and> expires_at iv = t \<and> \<not> used iv) new \<and>
           (e = None \<longrightarrow> set (map inv_email new) = set emails - existing_emails d spk)"
  using assms
proof (induction emails arbitrary: d n failed)
  case Nil
  then show ?case by simp
next
  case (Cons email rest)
  show ?case
  proof (cases "email \<in> existing_emails d spk")
    case True
    then have "send_invitations gen mail spk t rest d n failed = (e, d', n', failed')"
      using Cons.prems by (simp add: existing_emails_mem)
    from Cons.IH [OF this] obtain new where new: "invitations d' = invitations d @ new"
      "distinct (map inv_email new)"
      "set (map inv_email new) \<subseteq> set rest - existing_emails d spk"
      "list_all (\<lambda>iv. inv_survey iv = spk \<and> expires_at iv = t \<and> \<not> used iv) new"
      "e = None \<longrightarrow> set (map inv_email new) = set rest - existing_emails d spk"
      by blast
    have "set (email # rest) - existing_emails d spk = set rest - existing_emails d spk"
      using True by auto
    with new show ?thesis by auto
  next
    case False
    show ?thesis
    proof (cases "\<exists>iv \<in> set (invitations d). inv_token iv = gen (length (invitations d))")
      case True
      with False Cons.prems have "d' = d" "e = Some IntegrityError"
        by (simp_all add: existing_emails_mem Let_def)
      then show ?thesis by simp
    next
      case fresh: False
      let ?iv = "\<lparr>inv_survey = spk, inv_email = email, inv_token = gen (length (invitations d)),
                   expires_at = t, used = False, used_at = None\<rparr>"
      let ?d = "d\<lparr>invitations := invitations d @ [?iv]\<rparr>"
      have "\<exists>m f. send_invitations gen mail spk t rest ?d m f = (e, d', n', failed')"
        using False fresh Cons.prems by (auto simp: existing_emails_mem Let_def split: if_splits)
      then obtain m f where "send_invitations gen mail spk t rest ?d m f = (e, d', n', failed')"
        by blast
      from Cons.IH [OF this] obtain new where new: "invitations d' = invitations ?d @ new"
        "distinct (map inv_email new)"
        "set (map inv_email new) \<subseteq> set rest - existing_emails ?d spk"
        "list_all (\<lambda>iv. inv_survey iv = spk \<and> expires_at iv = t \<and> \<not> used iv) new"
        "e = None \<longrightarrow> set (map inv_email new) = set rest - existing_emails ?d spk"
        by blast
      have ex: "existing_emails ?d spk = insert email (existing_emails d spk)"
        by (simp add: existing_emails_append)
      have "invitations d' = invitations d @ (?iv # new)"
        using new(1) by simp
      moreover have "distinct (map inv_email (?iv # new))"
        using new(2,3) ex by auto
      moreover have "set (map inv_email (?iv # new)) \<subseteq> set (email # rest) - existing_emails d spk"
        using new(3) ex False by auto
      moreover have "list_all (\<lambda>iv. inv_survey iv = spk \<and> expires_at iv = t \<and> \<not> used iv) (?iv # new)"
        using new(4) by simp
      moreover have "e = None \<longrightarrow>
          set (map inv_email (?iv # new)) = set (email # rest) - existing_emails d spk"
        using new(5) ex False by auto
      ultimately show ?thesis by blast
    qed
  qed
qed

lemma leader_dashboard_view_rows:
  assumes "leader_dashboard_view gen mail d token (POST p) = (r, d')"
    and "find_survey d token = Some (spk, sv)" and "leader_completed_self sv"
    and "InvitationForm_clean p = Cleaned (emails, t)"
  shows "\<exists>new. invitations d' = invitations d @ new \<and>
           distinct (map inv_email new) \<and>
           set (map inv_email new) \<subseteq> set emails - existing_emails d spk \<and>
           list_all (\<lambda>iv. inv_survey iv = spk \<and> expires_at iv = t \<and> \<not> used iv) new \<and>
           ((\<exists>ms. r = Redirect ''leader_dashboard'' ms) \<longrightarrow>
              set (map inv_email new) = set emails - existing_emails d spk)"
proof -
  obtain e d'' c f where s: "send_invitations gen mail spk t emails d 0 [] = (e, d'', c, f)"
    by (metis prod.exhaust)
  have view: "leader_dashboard_view gen mail d token (POST p)
      = (case e of
           Some err \<Rightarrow> (ServerError err, d'')
         | None \<Rightarrow>
             (Redirect ''leader_dashboard''
                ((if c > 0 then [Invitations_sent c] else []) @
                 (if f \<noteq> [] then [Invitations_failed f] else [])), d''))"
    using assms(2-4) s by (simp add: leader_dashboard_view_def split: option.splits)
  from assms(1) have d'': "d'' = d'"
    unfolding view by (cases e) simp_all
  from assms(1) have r: "(\<exists>ms. r = Redirect ''leader_dashboard'' ms) \<longrightarrow> e = None"
    unfolding view by (cases e) auto
  from send_invitations_rows [OF s] show ?thesis
    unfolding d'' using r by blast
qed

text \<open>
  Claim C10. The addresses a valid invitation form hands to the view are the non-blank
  lines of the submitted text, stripped and lowercased (so stripping or lowercasing them
  again changes nothing). \<open>leader_dashboard_view\<close> works with exactly these cleaned
  addresses: the rows it adds to the invitation table are pairwise different, each has an
  address from the cleaned list that the survey did not have yet, belongs to the survey,
  is unused and carries the submitted expiry; when the view reports success, every cleaned
  address that the survey did not have yet got a row. So the view keeps the invitations of
  every survey stripped-and-lowercased and pairwise different, and then no two invitations
  of a survey have addresses that differ only in case.
\<close>

theorem invitation_emails_normalised:
  "(InvitationForm_clean p = Cleaned (emails, t) \<longrightarrow>
      (\<exists>raw. post_emails p = Some raw \<and> emails = map lower (email_lines (strip raw))) \<and>
      (\<forall>e \<in> set emails. lower e = e \<and> strip e = e \<and> e \<noteq> [])) \<and>
   (leader_dashboard_view gen mail d token (POST p) = (r, d') \<and>
    find_survey d token = Some (spk, sv) \<and> leader_completed_self sv \<and>
    InvitationForm_clean p = Cleaned (emails, t) \<longrightarrow>
      (\<exists>new. invitations d' = invitations d @ new \<and>
         distinct (map inv_email new) \<and>
         set (map inv_email new) \<subseteq> set emails - existing_emails d spk \<and>
         list_all (\<lambda>iv. inv_survey iv = spk \<and> expires_at iv = t \<and> \<not> used iv) new \<and>
         ((\<exists>ms. r = Redirect ''leader_dashboard'' ms) \<longrightarrow>
            set (map inv_email new) = set emails - existing_emails d spk))) \<and>
   (leader_dashboard_view gen mail d token req = (res, dres) \<and> form_created d s
      \<longrightarrow> form_created dres s) \<and>
   (form_created d s \<longrightarrow>
      distinct (map (\<lambda>iv. lower (inv_email iv))
                  (filter (\<lambda>iv. inv_survey iv = s) (invitations d))))"
proof (intro conjI impI)
  assume c: "InvitationForm_clean p = Cleaned (emails, t)"
  show "\<exists>raw. post_emails p = Some raw \<and> emails = map lower (email_lines (strip raw))"
    using c by (rule InvitationForm_clean_valid)
  then show "\<forall>e \<in> set emails. lower e = e \<and> strip e = e \<and> e \<noteq> []"
    using email_lines_normal by blast
next
  assume "leader_dashboard_view gen mail d token (POST p) = (r, d') \<and>
    find_survey d token = Some (spk, sv) \<and> leader_completed_self sv \<and>
    InvitationForm_clean p = Cleaned (emails, t)"
  then show "\<exists>new. invitations d' = invitations d @ new \<and>
         distinct (map inv_email new) \<and>
         set (map inv_email new) \<subseteq> set emails - existing_emails d spk \<and>
         list_all (\<lambda>iv. inv_survey iv = spk \<and> expires_at iv = t \<and> \<not> used iv) new \<and>
         ((\<exists>ms. r = Redirect ''leader_dashboard'' ms) \<longrightarrow>
            set (map inv_email new) = set emails - existing_emails d spk)"
    using leader_dashboard_view_rows [of gen mail d token p r d' spk sv emails t] by blast
next
  assume "leader_dashboard_view gen mail d token req = (res, dres) \<and> form_created d s"
  then show "form_created dres s"
    using leader_dashboard_view_form_created by blast
next
  assume "form_created d s"
  then show "distinct (map (\<lambda>iv. lower (inv_email iv))
                  (filter (\<lambda>iv. inv_survey iv = s) (invitations d)))"
    by (rule form_created_case_insensitive)
qed

lemma dashboard_db_created: "form_created dashboard_db 0"
  by code_simp

lemma invite_ok_clean:
  "InvitationForm_clean invite_ok_post = Cleaned ([''ann@school.org'', ''bob@x.y''], 500)"
  by code_simp

lemma invite_ok_redirect:
  "fst (leader_dashboard_view (\<lambda>n. ''t1'') (\<lambda>iv. True) dashboard_db ''lead'' (POST invite_ok_post))
     = Redirect ''leader_dashboard'' [Invitations_sent 1]"
  by code_simp

lemma dashboard_db_survey:
  "find_survey dashboard_db ''lead'' = Some (0, \<lparr>leader_token = ''lead'', leader_completed_self = True\<rparr>)"
  by code_simp

lemma dashboard_db_existing: "existing_emails dashboard_db 0 = {''ann@school.org''}"
  by (simp add: existing_emails_def dashboard_db_def)

theorem clean_emails_accepts_witness:
  "email_check ''ann@school.org'' \<and> at_then_dot ''ann@school.org'' \<and>
   (\<exists>es. InvitationForm_clean invite_post = Errors es \<and>
      filter (\<lambda>x. fst x = F_emails) es = [(F_emails, Message ''Invalid email address: bad'')])"
proof -
  have ok: "email_check ''ann@school.org''"
    by code_simp
  have bad: "post_emails invite_post = Some invite_text \<and> CHR 0x00 \<notin> set invite_text \<and>
      find (\<lambda>e. \<not> email_check e) (email_lines (strip invite_text)) = Some ''bad''"
    by code_simp
  note spec = clean_emails_accepts [where e = "''ann@school.org''" and p = invite_post
      and raw = invite_text and bad = "''bad''"]
  have "at_then_dot ''ann@school.org''"
    by (rule spec [THEN conjunct2, THEN conjunct1, THEN mp, OF ok])
  moreover
  have "\<exists>es. InvitationForm_clean invite_post = Errors es \<and>
      filter (\<lambda>x. fst x = F_emails) es
        = [(F_emails, Message (''Invalid email address: '' @ ''bad''))]"
    by (rule spec [THEN conjunct2, THEN conjunct2, THEN conjunct1, THEN mp, OF bad])
  ultimately show ?thesis
    using ok by simp
qed

theorem invitation_emails_normalised_witness:
  "InvitationForm_clean invite_ok_post = Cleaned ([''ann@school.org'', ''bob@x.y''], 500) \<and>
   lower ''bob@x.y'' = ''bob@x.y'' \<and> strip ''bob@x.y'' = ''bob@x.y'' \<and>
   (\<exists>new. invitations (snd (leader_dashboard_view (\<lambda>n. ''t1'') (\<lambda>iv. True) dashboard_db ''lead''
                               (POST invite_ok_post)))
            = invitations dashboard_db @ new \<and>
          set (map inv_email new) = {''bob@x.y''}) \<and>
   form_created dashboard_db 0 \<and>
   form_created (snd (leader_dashboard_view (\<lambda>n. ''t1'') (\<lambda>iv. True) dashboard_db ''lead''
                        (POST invite_ok_post))) 0 \<and>
   distinct (map (\<lambda>iv. lower (inv_email iv))
               (filter (\<lambda>iv. inv_survey iv = 0) (invitations dashboard_db)))"
proof -
  let ?v = "leader_dashboard_view (\<lambda>n. ''t1'') (\<lambda>iv. True) dashboard_db ''lead'' (POST invite_ok_post)"
  let ?sv = "\<lparr>leader_token = ''lead'', leader_completed_self = True\<rparr>"
  note spec = invitation_emails_normalised [where p = invite_ok_post
      and emails = "[''ann@school.org'', ''bob@x.y'']" and t = 500
      and gen = "\<lambda>n. ''t1''" and mail = "\<lambda>iv. True" and d = dashboard_db and token = "''lead''"
      and req = "POST invite_ok_post" and r = "fst ?v" and d' = "snd ?v"
      and res = "fst ?v" and dres = "snd ?v" and s = 0 and spk = 0 and sv = ?sv]
  have view: "?v = (fst ?v, snd ?v) \<and> form_created dashboard_db 0"
    using dashboard_db_created by simp
  have rows: "?v = (fst ?v, snd ?v) \<and> find_survey dashboard_db ''lead'' = Some (0, ?sv) \<and>
      leader_completed_self ?sv \<and>
      InvitationForm_clean invite_ok_post = Cleaned ([''ann@school.org'', ''bob@x.y''], 500)"
    using dashboard_db_survey invite_ok_clean by simp
  have "\<forall>e \<in> set [''ann@school.org'', ''bob@x.y'']. lower e = e \<and> strip e = e \<and> e \<noteq> []"
    by (rule spec [THEN conjunct1, THEN mp, OF invite_ok_clean, THEN conjunct2])
  then have normal: "lower ''bob@x.y'' = ''bob@x.y'' \<and> strip ''bob@x.y'' = ''bob@x.y''"
    by simp
  from spec [THEN conjunct2, THEN conjunct1, THEN mp, OF rows] obtain new where
    new: "invitations (snd ?v) = invitations dashboard_db @ new"
    and all: "(\<exists>ms. fst ?v = Redirect ''leader_dashboard'' ms) \<longrightarrow>
      set (map inv_email new) = set [''ann@school.org'', ''bob@x.y''] - existing_emails dashboard_db 0"
    by blast
  from all invite_ok_redirect
  have "set (map inv_email new) = set [''ann@school.org'', ''bob@x.y''] - existing_emails dashboard_db 0"
    by simp
  then have "set (map inv_email new) = {''bob@x.y''}"
    unfolding dashboard_db_existing by auto
  with new have created: "\<exists>new. invitations (snd ?v) = invitations dashboard_db @ new \<and>
      set (map inv_email new) = {''bob@x.y''}"
    by blast
  have kept: "form_created (snd ?v) 0"
    by (rule spec [THEN conjunct2, THEN conjunct2, THEN conjunct1, THEN mp, OF view])
  have "distinct (map (\<lambda>iv. lower (inv_email iv))
               (filter (\<lambda>iv. inv_survey iv = 0) (invitations dashboard_db)))"
    by (rule spec [THEN conjunct2, THEN conjunct2, THEN conjunct2, THEN mp, OF dashboard_db_created])
  with normal created kept show ?thesis
    using dashboard_db_created invite_ok_clean by simp
qed

subsection \<open>The survey forms\<close>

lemma multiple_choice_errors_field:
  "set (multiple_choice_errors f n m vs) \<subseteq> {f} \<times> UNIV"
  by (auto simp: multiple_choice_errors_def split: option.splits if_splits)











subsection \<open>Invitations are consumed once\<close>

lemma find_invitation_Some:
  "find_invitation d t = Some (k, iv) \<longleftrightarrow>
     k < length (invitations d) \<and> iv = invitations d ! k \<and> inv_token iv = t \<and>
     (\<forall>j < k. inv_token (invitations d ! j) \<noteq> t)"
  unfolding find_invitation_def find_Some_iff
  by (auto simp: nth_enumerate_eq)

lemma find_invitation_None:
  "find_invitation d t = None \<longleftrightarrow> (\<forall>iv \<in> set (invitations d). inv_token iv \<noteq> t)"
proof -
  have "snd ` set (enumerate 0 (invitations d)) = set (invitations d)"
    by (metis map_snd_enumerate set_map)
  then show ?thesis
    unfolding find_invitation_def find_None_iff by (force simp: split_def)
qed

lemma token_used_iff:
  "token_used d t \<longleftrightarrow>
     (\<exists>k < length (invitations d). inv_token (invitations d ! k) = t \<and> used (invitations d ! k) \<and>
        (\<forall>j < k. inv_token (invitations d ! j) \<noteq> t))"
proof (cases "find_invitation d t")
  case None
  then have "\<not> token_used d t"
    by (simp add: token_used_def)
  moreover from None have "\<forall>iv \<in> set (invitations d). inv_token iv \<noteq> t"
    by (simp add: find_invitation_None)
  ultimately show ?thesis
    by (metis nth_mem)
next
  case (Some a)
  obtain k iv where a: "a = (k, iv)" by (cases a)
  from Some [unfolded a find_invitation_Some]
  have k: "k < length (invitations d)" "iv = invitations d ! k" "inv_token iv = t"
    "\<forall>j < k. inv_token (invitations d ! j) \<noteq> t"
    by blast+
  have uniq: "k' = k" if "k' < length (invitations d)" "inv_token (invitations d ! k') = t"
    "\<forall>j < k'. inv_token (invitations d ! j) \<noteq> t" for k'
    using that k by (metis linorder_neqE_nat)
  have lhs: "token_used d t \<longleftrightarrow> used (invitations d ! k)"
    unfolding token_used_def Some a using k(2) by simp
  show ?thesis
    unfolding lhs
  proof
    assume "used (invitations d ! k)"
    with k show "\<exists>k < length (invitations d). inv_token (invitations d ! k) = t \<and>
        used (invitations d ! k) \<and> (\<forall>j < k. inv_token (invitations d ! j) \<noteq> t)"
      by blast
  next
    assume "\<exists>k < length (invitations d). inv_token (invitations d ! k) = t \<and>
        used (invitations d ! k) \<and> (\<forall>j < k. inv_token (invitations d ! j) \<noteq> t)"
    then obtain k' where "k' < length (invitations d)" "inv_token (invitations d ! k') = t"
      "used (invitations d ! k')" "\<forall>j < k'. inv_token (invitations d ! j) \<noteq> t"
      by blast
    with uniq [of k'] show "used (invitations d ! k)"
      by simp
  qed
qed

lemma invitations_kept_nth:
  assumes "invitations_kept d d'" and "j < length (invitations d)"
  shows "inv_token (invitations d' ! j) = inv_token (invitations d ! j)"
    and "used (invitations d ! j) \<Longrightarrow> used (invitations d' ! j)"
proof -
  from assms have "inv_token (take (length (invitations d)) (invitations d') ! j)
        = inv_token (invitations d ! j) \<and>
      (used (take (length (invitations d)) (invitations d') ! j) \<or> \<not> used (invitations d ! j))"
    unfolding invitations_kept_def by (auto dest: list_all2_nthD)
  with assms(2) show "inv_token (invitations d' ! j) = inv_token (invitations d ! j)"
    and "used (invitations d ! j) \<Longrightarrow> used (invitations d' ! j)"
    by simp_all
qed

lemma token_used_kept:
  assumes "token_used d t" and "invitations_kept d d'"
  shows "token_used d' t"
proof -
  from assms(1) obtain k where k: "k < length (invitations d)"
    "inv_token (invitations d ! k) = t" "used (invitations d ! k)"
    "\<forall>j < k. inv_token (invitations d ! j) \<noteq> t"
    unfolding token_used_iff by blast
  from assms(2) have len: "length (invitations d) \<le> length (invitations d')"
    by (simp add: invitations_kept_def)
  have "inv_token (invitations d' ! k) = t" "used (invitations d' ! k)"
    using invitations_kept_nth [OF assms(2) k(1)] k by simp_all
  moreover have "\<forall>j < k. inv_token (invitations d' ! j) \<noteq> t"
    using invitations_kept_nth(1) [OF assms(2)] k by simp
  ultimately show ?thesis
    unfolding token_used_iff using k(1) len by (intro exI [of _ k]) simp
qed

lemma invitations_kept_same: "invitations d' = invitations d \<Longrightarrow> invitations_kept d d'"
  by (simp add: invitations_kept_def list_all2_same)

lemma invitations_kept_mark:
  assumes "find_invitation d t = Some (k, iv)"
    and "invitations d' = (invitations d)[k := iv\<lparr>used := True, used_at := u\<rparr>]"
  shows "invitations_kept d d'" and "token_used d' t"
proof -
  from assms(1) have k: "k < length (invitations d)" "iv = invitations d ! k" "inv_token iv = t"
    "\<forall>j < k. inv_token (invitations d ! j) \<noteq> t"
    unfolding find_invitation_Some by blast+
  show "invitations_kept d d'"
    unfolding invitations_kept_def assms(2)
    using k by (auto simp: list_all2_conv_all_nth nth_list_update)
  show "token_used d' t"
    unfolding token_used_iff assms(2)
    using k by (auto simp: nth_list_update intro!: exI [of _ k])
qed

lemma invitations_kept_append:
  "invitations d' = invitations d @ new \<Longrightarrow> invitations_kept d d'"
  by (simp add: invitations_kept_def list_all2_same)

lemma invitations_kept_trans:
  assumes "invitations_kept d d'" and "invitations_kept d' d''"
  shows "invitations_kept d d''"
proof -
  have len: "length (invitations d) \<le> length (invitations d')"
    "length (invitations d') \<le> length (invitations d'')"
    using assms by (simp_all add: invitations_kept_def)
  have "inv_token (invitations d'' ! j) = inv_token (invitations d ! j) \<and>
        (used (invitations d'' ! j) \<or> \<not> used (invitations d ! j))"
    if "j < length (invitations d)" for j
    using invitations_kept_nth [OF assms(1) that] invitations_kept_nth [OF assms(2), of j]
      that len by auto
  then show ?thesis
    unfolding invitations_kept_def using len by (auto simp: list_all2_conv_all_nth)
qed

lemma save_response_and_rankings_tables:
  "invitations (snd (save_response_and_rankings response p c d)) = invitations d"
  "surveys (snd (save_response_and_rankings response p c d)) = surveys d"
  "responses (snd (save_response_and_rankings response p c d)) = responses d @ [response]"
  by (simp_all add: save_response_and_rankings_def Let_def split: option.splits)

lemma save_response_and_rankings_eq:
  assumes "save_response_and_rankings response p c d = (e, d')"
  shows "invitations d' = invitations d" and "surveys d' = surveys d"
    and "responses d' = responses d @ [response]"
  using save_response_and_rankings_tables [of response p c d] assms by simp_all

lemma participant_survey_view_success:
  assumes "participant_survey_view d now t (POST p) = (Redirect ''thank_you'' ms, d')"
  shows "\<exists>k iv response. find_invitation d t = Some (k, iv) \<and> \<not> used iv \<and>
           invitations d' = (invitations d)[k := iv\<lparr>used := True, used_at := Some now\<rparr>] \<and>
           responses d' = responses d @ [response]"
proof -
  from assms obtain k iv where f: "find_invitation d t = Some (k, iv)"
    by (cases "find_invitation d t") (auto simp: participant_survey_view_def)
  from assms f have nu: "\<not> used iv" "\<not> is_expired now iv"
    by (auto simp: participant_survey_view_def split: if_splits)
  from assms f nu obtain c where c: "SurveyResponseForm_clean p = Cleaned c"
    by (cases "SurveyResponseForm_clean p") (auto simp: participant_survey_view_def)
  let ?resp = "response_of c (inv_survey iv) (Some k) now"
  let ?s = "save_response_and_rankings ?resp p c d"
  from assms f nu c have "fst ?s = None"
    and d': "d' = (snd ?s)\<lparr>invitations := (invitations (snd ?s))[k := iv\<lparr>used := True, used_at := Some now\<rparr>]\<rparr>"
    by (auto simp: participant_survey_view_def split: prod.splits option.splits)
  then have "invitations d' = (invitations d)[k := iv\<lparr>used := True, used_at := Some now\<rparr>]"
    and "responses d' = responses d @ [?resp]"
    by (simp_all add: save_response_and_rankings_tables)
  with f nu show ?thesis by blast
qed

lemma participant_survey_view_kept:
  "invitations_kept d (snd (participant_survey_view d now t req))"
proof (cases "\<exists>ms. fst (participant_survey_view d now t req) = Redirect ''thank_you'' ms")
  case True
  then obtain ms where ms: "participant_survey_view d now t req
      = (Redirect ''thank_you'' ms, snd (participant_survey_view d now t req))"
    by (metis prod.collapse)
  then obtain p where "req = POST p"
    by (cases req) (auto simp: participant_survey_view_def split: option.splits if_splits)
  with ms show ?thesis
    using participant_survey_view_success invitations_kept_mark(1) by metis
next
  case False
  then have "invitations (snd (participant_survey_view d now t req)) = invitations d"
    by (auto simp: participant_survey_view_def dest: save_response_and_rankings_eq(1)
        split: option.splits prod.splits if_splits request.splits form_result.splits)
  then show ?thesis by (rule invitations_kept_same)
qed

lemma leader_self_assessment_view_kept:
  "invitations_kept d (snd (leader_self_assessment_view d now t req))"
proof -
  have "invitations (snd (leader_self_assessment_view d now t req)) = invitations d"
    by (auto simp: leader_self_assessment_view_def dest: save_response_and_rankings_eq(1)
        split: option.splits prod.splits if_splits request.splits form_result.splits)
  then show ?thesis by (rule invitations_kept_same)
qed

lemma send_invitations_append:
  "\<exists>new. invitations (fst (snd (send_invitations gen mail spk expires emails d n failed)))
          = invitations d @ new"
proof (induction emails arbitrary: d n failed)
  case Nil
  show ?case by simp
next
  case (Cons email rest)
  have step: "\<exists>new. invitations (fst (snd (send_invitations gen mail spk expires rest
        (d\<lparr>invitations := invitations d @ [iv]\<rparr>) n' failed'))) = invitations d @ new"
    for iv n' failed'
    using Cons.IH [of "d\<lparr>invitations := invitations d @ [iv]\<rparr>" n' failed'] by auto
  show ?case
    using Cons.IH [of d n failed] step by (simp add: Let_def)
qed

lemma leader_dashboard_view_kept:
  "invitations_kept d (snd (leader_dashboard_view gen mail d t req))"
proof -
  have "\<exists>new. invitations (snd (leader_dashboard_view gen mail d t req)) = invitations d @ new"
  proof (cases "\<exists>spk sv p emails expires. find_survey d t = Some (spk, sv) \<and>
      leader_completed_self sv \<and> req = POST p \<and> InvitationForm_clean p = Cleaned (emails, expires)")
    case True
    then obtain spk sv p emails expires where *: "find_survey d t = Some (spk, sv)"
      "leader_completed_self sv" "req = POST p" "InvitationForm_clean p = Cleaned (emails, expires)"
      by blast
    obtain e d' c f where s: "send_invitations gen mail spk expires emails d 0 [] = (e, d', c, f)"
      by (metis prod.exhaust)
    then have "\<exists>new. invitations d' = invitations d @ new"
      using send_invitations_append [of gen mail spk expires emails d 0 "[]"] by simp
    with * s show ?thesis
      by (cases e) (simp_all add: leader_dashboard_view_def)
  next
    case False
    then have "snd (leader_dashboard_view gen mail d t req) = d"
      by (auto simp: leader_dashboard_view_def
          split: option.splits prod.splits if_splits request.splits form_result.splits)
    then show ?thesis by simp
  qed
  then show ?thesis
    using invitations_kept_append by blast
qed

lemma api_target_invitation:
  assumes "api_target d now url data = Inr (spk, inv_opt, sv_opt)"
    and "api_invitation_token data = Some t"
  shows "\<exists>k iv. find_invitation d t = Some (k, iv) \<and> \<not> used iv \<and> inv_opt = Some (k, iv)"
  using assms
  by (auto simp: api_target_def split: option.splits if_splits)

lemma api_target_leader:
  assumes "api_target d now url data = Inr (spk, inv_opt, sv_opt)"
    and "api_invitation_token data = None"
  shows "inv_opt = None"
  using assms
  by (auto simp: api_target_def split: option.splits if_splits)

lemma api_submit_survey_invitations:
  assumes "api_target d now url data = Inr (spk, inv_opt, sv_opt)"
  shows "invitations (snd (api_submit_survey d now url (Some data))) = invitations d \<or>
         (\<exists>k iv. inv_opt = Some (k, iv) \<and>
            fst (api_submit_survey d now url (Some data))
              = JsonResponse 200 (JsonSuccess ''Survey submitted successfully'') \<and>
            invitations (snd (api_submit_survey d now url (Some data)))
              = (invitations d)[k := iv\<lparr>used := True, used_at := Some now\<rparr>])"
  using assms
  by (cases inv_opt; cases sv_opt)
     (auto simp: api_submit_survey_def Let_def split: option.splits simp del: upt_rec_numeral)

lemma api_submit_survey_success:
  assumes "api_submit_survey d now url (Some data) = (JsonResponse 200 body, d')"
    and "api_invitation_token data = Some t"
  shows "\<exists>k iv response. find_invitation d t = Some (k, iv) \<and> \<not> used iv \<and>
           invitations d' = (invitations d)[k := iv\<lparr>used := True, used_at := Some now\<rparr>] \<and>
           responses d' = responses d @ [response]"
proof -
  from assms(1) obtain spk inv_opt sv_opt where
    tgt: "api_target d now url data = Inr (spk, inv_opt, sv_opt)"
    by (cases "api_target d now url data")
       (auto simp: api_submit_survey_def api_target_def split: option.splits if_splits)
  from api_target_invitation [OF tgt assms(2)] obtain k iv where
    f: "find_invitation d t = Some (k, iv)" "\<not> used iv" "inv_opt = Some (k, iv)"
    by blast
  from assms(1) tgt f(3)
  have "invitations d' = (invitations d)[k := iv\<lparr>used := True, used_at := Some now\<rparr>] \<and>
        (\<exists>response. responses d' = responses d @ [response])"
    by (auto simp: api_submit_survey_def Let_def split: option.splits if_splits
        simp del: upt_rec_numeral)
  with f show ?thesis by blast
qed

lemma api_submit_survey_kept:
  "invitations_kept d (snd (api_submit_survey d now url body))"
proof (cases body)
  case None
  then show ?thesis
    by (simp add: api_submit_survey_def invitations_kept_same)
next
  case (Some data)
  show ?thesis
  proof (cases "api_target d now url data")
    case (Inl r)
    with Some show ?thesis
      by (simp add: api_submit_survey_def invitations_kept_same)
  next
    case (Inr x)
    obtain spk inv_opt sv_opt where x: "x = (spk, inv_opt, sv_opt)"
      by (cases x)
    from api_submit_survey_invitations [OF Inr [unfolded x]]
    show ?thesis
    proof
      assume "invitations (snd (api_submit_survey d now url (Some data))) = invitations d"
      then show ?thesis
        unfolding Some by (rule invitations_kept_same)
    next
      assume "\<exists>k iv. inv_opt = Some (k, iv) \<and>
            fst (api_submit_survey d now url (Some data))
              = JsonResponse 200 (JsonSuccess ''Survey submitted successfully'') \<and>
            invitations (snd (api_submit_survey d now url (Some data)))
              = (invitations d)[k := iv\<lparr>used := True, used_at := Some now\<rparr>]"
      then obtain k iv where k: "inv_opt = Some (k, iv)"
        and upd: "invitations (snd (api_submit_survey d now url (Some data)))
              = (invitations d)[k := iv\<lparr>used := True, used_at := Some now\<rparr>]"
        by blast
      have "\<exists>t. find_invitation d t = Some (k, iv)"
        using Inr [unfolded x] k
        by (auto simp: api_target_def split: option.splits if_splits)
      then show ?thesis
        unfolding Some using invitations_kept_mark(1) [OF _ upd] by blast
    qed
  qed
qed

lemma api_submit_survey_used:
  assumes "token_used d t" and "api_invitation_token data = Some t"
  shows "api_submit_survey d now url (Some data)
           = (JsonResponse 400 (JsonError ''Survey already completed''), d)"
  using assms
  by (auto simp: api_submit_survey_def api_target_def token_used_def split: option.splits)

lemma participant_survey_view_used:
  assumes "token_used d t"
  shows "participant_survey_view d now t req = (Render ''survey/invalid_link.html'' [], d)"
  using assms
  by (auto simp: participant_survey_view_def token_used_def split: option.splits)

text \<open>
  Claim C6. A successful submission for an invitation token, through the web form or
  through the API, finds the invitation unused, leaves it marked used and adds one
  response. Once the invitation is used, every later request with its token is rejected
  with the database unchanged, so without another response: the web view renders the
  invalid-link page and the API answers status 400 with the error
  \<open>Survey already completed\<close>. And a used invitation stays used, whatever request the
  participant view, the API, the self-assessment view or the dashboard serve in between.
\<close>

theorem invitation_consumed_once:
  "(participant_survey_view d now t (POST p) = (Redirect ''thank_you'' ms, d') \<longrightarrow>
      \<not> token_used d t \<and> token_used d' t \<and> length (responses d') = Suc (length (responses d))) \<and>
   (api_submit_survey d now url (Some data) = (JsonResponse 200 body, d') \<and>
    api_invitation_token data = Some t \<longrightarrow>
      \<not> token_used d t \<and> token_used d' t \<and> length (responses d') = Suc (length (responses d))) \<and>
   (token_used d t \<longrightarrow>
      participant_survey_view d now t req = (Render ''survey/invalid_link.html'' [], d)) \<and>
   (token_used d t \<and> api_invitation_token data = Some t \<longrightarrow>
      api_submit_survey d now url (Some data)
        = (JsonResponse 400 (JsonError ''Survey already completed''), d)) \<and>
   (token_used d t \<longrightarrow>
      token_used (snd (participant_survey_view d now t' req)) t \<and>
      token_used (snd (api_submit_survey d now url any_body)) t \<and>
      token_used (snd (leader_self_assessment_view d now url req)) t \<and>
      token_used (snd (leader_dashboard_view gen mail d url invite_req)) t)"
proof (intro conjI impI)
  assume a: "participant_survey_view d now t (POST p) = (Redirect ''thank_you'' ms, d')"
  from participant_survey_view_success [OF a] obtain k iv response where
    f: "find_invitation d t = Some (k, iv)" "\<not> used iv"
    and u: "invitations d' = (invitations d)[k := iv\<lparr>used := True, used_at := Some now\<rparr>]"
    and r: "responses d' = responses d @ [response]"
    by blast
  show "\<not> token_used d t" using f by (simp add: token_used_def)
  show "token_used d' t" using f(1) u by (rule invitations_kept_mark(2))
  show "length (responses d') = Suc (length (responses d))" using r by simp
next
  assume a: "api_submit_survey d now url (Some data) = (JsonResponse 200 body, d') \<and>
    api_invitation_token data = Some t"
  from api_submit_survey_success [of d now url data body d' t] a obtain k iv response where
    f: "find_invitation d t = Some (k, iv)" "\<not> used iv"
    and u: "invitations d' = (invitations d)[k := iv\<lparr>used := True, used_at := Some now\<rparr>]"
    and r: "responses d' = responses d @ [response]"
    by blast
  show "\<not> token_used d t" using f by (simp add: token_used_def)
  show "token_used d' t" using f(1) u by (rule invitations_kept_mark(2))
  show "length (responses d') = Suc (length (responses d))" using r by simp
next
  assume "token_used d t"
  then show "participant_survey_view d now t req = (Render ''survey/invalid_link.html'' [], d)"
    by (rule participant_survey_view_used)
next
  assume "token_used d t \<and> api_invitation_token data = Some t"
  then show "api_submit_survey d now url (Some data)
      = (JsonResponse 400 (JsonError ''Survey already completed''), d)"
    using api_submit_survey_used by blast
next
  assume u: "token_used d t"
  show "token_used (snd (participant_survey_view d now t' req)) t"
    using u participant_survey_view_kept by (rule token_used_kept)
  show "token_used (snd (api_submit_survey d now url any_body)) t"
    using u api_submit_survey_kept by (rule token_used_kept)
  show "token_used (snd (leader_self_assessment_view d now url req)) t"
    using u leader_self_assessment_view_kept by (rule token_used_kept)
  show "token_used (snd (leader_dashboard_view gen mail d url invite_req)) t"
    using u leader_dashboard_view_kept by (rule token_used_kept)
qed

lemma good_post_result:
  "fst (participant_survey_view submit_db 50 ''tok'' (POST good_post))
     = Redirect ''thank_you'' [Thank_you]"
  by code_simp

lemma api_retry_result:
  "fst (api_submit_survey submit_db 50 ''lead'' (Some api_retry))
     = JsonResponse 200 (JsonSuccess ''Survey submitted successfully'')"
  by code_simp

text \<open>
  Claim C9 asks that every stored response has exactly five rankings per category, with
  pairwise different ranks between 1 and 5, as the comment \<open>1-5, where 5 is highest\<close>
  on the model's \<open>rank\<close> field says. The views store what they are sent: a valid form
  that posts \<open>strength_rank_0 = 9\<close> is accepted and the rank 9 is stored; with
  \<open>strength_rank_0 = 4\<close> two strengths of the response have rank 4; and the API
  accepts a body without rankings and stores a response with none.
\<close>

theorem rank_out_of_range_stored:
  "map_prod id (\<lambda>d. map rk_rank (strength_rankings d))
     (participant_survey_view submit_db 50 ''tok'' (POST rank9_post))
     = (Redirect ''thank_you'' [Thank_you], [9, 4, 3, 2, 1]) \<and>
   map_prod id (\<lambda>d. map rk_rank (strength_rankings d))
     (participant_survey_view submit_db 50 ''tok'' (POST rank4_post))
     = (Redirect ''thank_you'' [Thank_you], [4, 4, 3, 2, 1]) \<and>
   map_prod id (\<lambda>d. (length (responses d), strength_rankings d, opportunity_rankings d))
     (api_submit_survey submit_db 50 ''lead'' (Some api_retry))
     = (JsonResponse 200 (JsonSuccess ''Survey submitted successfully''), 1, [], [])"
  by code_simp




theorem invitation_consumed_once_witness:
  "\<not> token_used submit_db ''tok'' \<and>
   token_used (snd (participant_survey_view submit_db 50 ''tok'' (POST good_post))) ''tok'' \<and>
   length (responses (snd (participant_survey_view submit_db 50 ''tok'' (POST good_post)))) = 1 \<and>
   token_used (snd (api_submit_survey submit_db 50 ''lead'' (Some api_retry))) ''tok'' \<and>
   length (responses (snd (api_submit_survey submit_db 50 ''lead'' (Some api_retry)))) = 1 \<and>
   participant_survey_view (snd (participant_survey_view submit_db 50 ''tok'' (POST good_post)))
       60 ''tok'' (POST good_post)
     = (Render ''survey/invalid_link.html'' [],
        snd (participant_survey_view submit_db 50 ''tok'' (POST good_post))) \<and>
   api_submit_survey (snd (participant_survey_view submit_db 50 ''tok'' (POST good_post)))
       60 ''lead'' (Some api_retry)
     = (JsonResponse 400 (JsonError ''Survey already completed''),
        snd (participant_survey_view submit_db 50 ''tok'' (POST good_post))) \<and>
   token_used (snd (leader_dashboard_view (\<lambda>n. ''t1'') (\<lambda>iv. True)
                      (snd (participant_survey_view submit_db 50 ''tok'' (POST good_post)))
                      ''lead'' (POST invite_ok_post))) ''tok''"
proof -
  let ?v = "participant_survey_view submit_db 50 ''tok'' (POST good_post)"
  let ?a = "api_submit_survey submit_db 50 ''lead'' (Some api_retry)"
  let ?ok = "JsonSuccess ''Survey submitted successfully''"
  note first = invitation_consumed_once [where d = submit_db and now = 50 and t = "''tok''"
      and p = good_post and ms = "[Thank_you]" and d' = "snd ?v"]
  note api = invitation_consumed_once [where d = submit_db and now = 50 and t = "''tok''"
      and url = "''lead''" and data = api_retry and body = ?ok and d' = "snd ?a"]
  note later = invitation_consumed_once [where d = "snd ?v" and now = 60 and t = "''tok''"
      and req = "POST good_post" and url = "''lead''" and data = api_retry
      and gen = "\<lambda>n. ''t1''" and mail = "\<lambda>iv. True" and invite_req = "POST invite_ok_post"]
  have "?v = (Redirect ''thank_you'' [Thank_you], snd ?v)"
    using good_post_result by (simp add: prod_eq_iff)
  then have c1: "\<not> token_used submit_db ''tok'' \<and> token_used (snd ?v) ''tok'' \<and>
      length (responses (snd ?v)) = Suc (length (responses submit_db))"
    by (rule first [THEN conjunct1, THEN mp])
  have "?a = (JsonResponse 200 ?ok, snd ?a) \<and> api_invitation_token api_retry = Some ''tok''"
    using api_retry_result by (simp add: prod_eq_iff api_retry_def)
  then have c2: "\<not> token_used submit_db ''tok'' \<and> token_used (snd ?a) ''tok'' \<and>
      length (responses (snd ?a)) = Suc (length (responses submit_db))"
    by (rule api [THEN conjunct2, THEN conjunct1, THEN mp])
  have used: "token_used (snd ?v) ''tok''"
    using c1 by simp
  have c3: "participant_survey_view (snd ?v) 60 ''tok'' (POST good_post)
      = (Render ''survey/invalid_link.html'' [], snd ?v)"
    using used by (rule later [THEN conjunct2, THEN conjunct2, THEN conjunct1, THEN mp])
  have "token_used (snd ?v) ''tok'' \<and> api_invitation_token api_retry = Some ''tok''"
    using used by (simp add: api_retry_def)
  then have c4: "api_submit_survey (snd ?v) 60 ''lead'' (Some api_retry)
      = (JsonResponse 400 (JsonError ''Survey already completed''), snd ?v)"
    by (rule later [THEN conjunct2, THEN conjunct2, THEN conjunct2, THEN conjunct1, THEN mp])
  have c5: "token_used (snd (leader_dashboard_view (\<lambda>n. ''t1'') (\<lambda>iv. True) (snd ?v)
                      ''lead'' (POST invite_ok_post))) ''tok''"
    by (rule later [THEN conjunct2, THEN conjunct2, THEN conjunct2, THEN conjunct2, THEN mp,
          OF used, THEN conjunct2, THEN conjunct2, THEN conjunct2])
  have len: "length (responses submit_db) = 0"
    by (simp add: submit_db_def)
  have t0: "\<not> token_used submit_db ''tok''"
    using c1 by (rule conjunct1)
  have l1: "length (responses (snd ?v)) = 1"
    using c1 len by simp
  have u2: "token_used (snd ?a) ''tok''"
    using c2 by (elim conjE)
  have l2: "length (responses (snd ?a)) = 1"
    using c2 len by simp
  show ?thesis
    by (intro conjI) (fact t0 used l1 u2 l2 c3 c4 c5)+
qed

end
